theory Spec2Isabelle
  imports Main "HOL-Library.Sublist"
begin

section \<open>Data model of \<open>page.tsx\<close>\<close>

text \<open>
  The raw interfaces describe the JSON of the schedule endpoint. A field that the code
  reads through optional chaining (\<open>?.\<close>) or defaults with \<open>||\<close> may be absent at run
  time, so it is an \<open>option\<close> here. So is \<open>event.competitions\<close>, which the code indexes
  without a guard: its absence is the \<open>TypeError\<close> branch of \<open>make_game\<close>. The other
  fields have the declared type.
  Field names are the source's, except \<open>id\<close> and \<open>abbreviation\<close>, which are
  \<open>ident\<close> and \<open>abbrev\<close>. Where two interfaces share a field name the selector is
  written qualified (\<open>event.date\<close>, \<open>game.date\<close>).
\<close>

record raw_team =
  displayName :: "string option"
  abbrev :: "string option"
  logo :: "string option"

record competitor =
  homeAway :: string
  team :: "raw_team option"
  score :: "string option"

record competition =
  competitors :: "competitor list option"

record status_type =
  completed :: "bool option"

record event_status =
  type :: "status_type option"

record event =
  ident :: string
  date :: string
  name :: string
  shortName :: string
  status :: "event_status option"
  competitions :: "competition list option"

record game_team =
  displayName :: string
  abbrev :: string
  logo :: string

record game_side =
  team :: game_team
  score :: "string option"

record game =
  ident :: string
  date :: string
  name :: string
  shortName :: string
  completed :: bool
  homeTeam :: game_side
  awayTeam :: game_side

record team_schedule =
  lastGames :: "game list"
  nextGames :: "game list"

record schedule_response =
  events :: "event list option"

text \<open>
  A value thrown inside the \<open>try\<close> block: an \<open>Error\<close> instance with its message, or
  anything else (the \<open>catch\<close> clause tells them apart with \<open>instanceof Error\<close>).
\<close>

datatype thrown = ErrorObject string | NonError

text \<open>
  What \<open>fetch\<close> resolves to: the \<open>ok\<close> flag, the status code, and the outcome of
  \<open>response.json()\<close>, which rejects when the body is not JSON.
\<close>

record response =
  ok :: bool
  status :: nat
  json :: "thrown + schedule_response"

text \<open>The three state variables that \<open>fetchTeamSchedule\<close> writes.\<close>

record ui_state =
  teamSchedule :: "team_schedule option"
  scheduleLoading :: bool
  scheduleError :: "string option"

section \<open>JavaScript primitives used by the resolver\<close>

text \<open>
  A time value (\<open>new Date(s).getTime()\<close>) is an integer number of milliseconds, or NaN
  for an invalid date: \<open>None\<close> is NaN. The date parser is the engine's and is a parameter
  \<open>getTime :: string \<Rightarrow> int option\<close> of the functions below; \<open>now\<close> is the time value of
  \<open>new Date()\<close>.
\<close>

text \<open>\<open>a || d\<close> for an optional string: absent and empty are both falsy.\<close>

definition or_default :: "string option \<Rightarrow> string \<Rightarrow> string" where
  "or_default a d = (case a of None \<Rightarrow> d | Some s \<Rightarrow> if s = [] then d else s)"

text \<open>\<open>a || false\<close> for an optional boolean.\<close>

definition or_false :: "bool option \<Rightarrow> bool" where
  "or_false a = (case a of None \<Rightarrow> False | Some b \<Rightarrow> b)"

text \<open>\<open>xs[0]\<close>: \<open>undefined\<close> on an empty array.\<close>

definition first_elem :: "'a list \<Rightarrow> 'a option" where
  "first_elem xs = (case xs of [] \<Rightarrow> None | x # _ \<Rightarrow> Some x)"

text \<open>\<open>gameDate > now\<close>: a comparison with NaN is false.\<close>

definition date_gt :: "int option \<Rightarrow> int \<Rightarrow> bool" where
  "date_gt t now = (case t of None \<Rightarrow> False | Some v \<Rightarrow> now < v)"

text \<open>
  Subtraction of two time values: NaN when either is NaN. Time values are integers of
  magnitude at most 8.64e15, so the floating-point difference has the sign of the exact
  one and is zero only when they are equal.
\<close>

definition num_sub :: "int option \<Rightarrow> int option \<Rightarrow> int option" where
  "num_sub a b =
     (case a of None \<Rightarrow> None
      | Some x \<Rightarrow> (case b of None \<Rightarrow> None | Some y \<Rightarrow> Some (x - y)))"

text \<open>
  \<open>Array.prototype.sort\<close> with a comparison function. A NaN result of the comparison
  function counts as \<open>0\<close> (\<open>SortCompare\<close>). ECMAScript fixes the result only when the
  comparison function is a consistent order: the sort is then stable. Otherwise the
  order is the engine's, and the model follows V8 (Chrome, Node), as it sorts an array of
  fewer than 64 items: \<open>CountAndMakeRun\<close> takes the longest run at the front that is
  non-descending, or strictly descending and then reversed, and \<open>BinaryInsertionSort\<close>
  inserts each remaining item at the place a binary search finds. For 64 items or more
  V8 sorts runs of 32 to 64 items in this way and merges them; the merge is not
  modelled, and \<open>array_sort\<close> is then V8's result when the comparison function is a
  consistent order, where every stable sort returns the same list.
\<close>

type_synonym 'a comparefn = "'a \<Rightarrow> 'a \<Rightarrow> int option"

definition SortCompare :: "'a comparefn \<Rightarrow> 'a \<Rightarrow> 'a \<Rightarrow> int" where
  "SortCompare comparefn x y = (case comparefn x y of None \<Rightarrow> 0 | Some v \<Rightarrow> v)"

fun extend_run :: "'a comparefn \<Rightarrow> bool \<Rightarrow> 'a \<Rightarrow> 'a list \<Rightarrow> nat" where
  "extend_run comparefn isDescending previousElement [] = 0"
| "extend_run comparefn isDescending previousElement (currentElement # rest) =
     (let order = SortCompare comparefn currentElement previousElement in
      if (if isDescending then order \<ge> 0 else order < 0) then 0
      else Suc (extend_run comparefn isDescending currentElement rest))"

definition CountAndMakeRun :: "'a comparefn \<Rightarrow> 'a list \<Rightarrow> 'a list \<times> 'a list" where
  "CountAndMakeRun comparefn workArray =
     (case workArray of
        [] \<Rightarrow> ([], [])
      | [x] \<Rightarrow> ([x], [])
      | elementHigh # elementLow # rest \<Rightarrow>
          (let order = SortCompare comparefn elementLow elementHigh;
               isDescending = (order < 0);
               runLength = 2 + extend_run comparefn isDescending elementLow rest;
               run = take runLength workArray
           in (if isDescending then rev run else run, drop runLength workArray)))"

function binary_search :: "'a comparefn \<Rightarrow> 'a \<Rightarrow> 'a list \<Rightarrow> nat \<Rightarrow> nat \<Rightarrow> nat" where
  "binary_search comparefn pivot workArray left right =
     (if left < right then
        (let mid = left + (right - left) div 2;
             order = SortCompare comparefn pivot (workArray ! mid)
         in if order < 0 then binary_search comparefn pivot workArray left mid
            else binary_search comparefn pivot workArray (mid + 1) right)
      else left)"
  by pat_completeness auto
termination
  by (relation "measure (\<lambda>(comparefn, pivot, workArray, left, right). right - left)") auto

declare binary_search.simps [simp del]

fun BinaryInsertionSort :: "'a comparefn \<Rightarrow> 'a list \<Rightarrow> 'a list \<Rightarrow> 'a list" where
  "BinaryInsertionSort comparefn run [] = run"
| "BinaryInsertionSort comparefn run (pivot # rest) =
     (let left = binary_search comparefn pivot run 0 (length run)
      in BinaryInsertionSort comparefn (take left run @ pivot # drop left run) rest)"

text \<open>
  \<open>CountAndMakeRun\<close> above returns the run, made ascending, and the items after it.
  An array of fewer than 2 items is returned as it is.
\<close>

definition array_sort :: "'a comparefn \<Rightarrow> 'a list \<Rightarrow> 'a list" where
  "array_sort comparefn xs =
     (if length xs < 2 then xs
      else case CountAndMakeRun comparefn xs of (run, rest) \<Rightarrow> BinaryInsertionSort comparefn run rest)"

text \<open>\<open>xs.slice(0, 3)\<close>.\<close>

definition slice03 :: "'a list \<Rightarrow> 'a list" where
  "slice03 xs = take 3 xs"

text \<open>The decimal text of a status code, as the template literal renders it.\<close>

definition digit_char :: "nat \<Rightarrow> char" where
  "digit_char d = ''0123456789'' ! d"

fun number_to_string :: "nat \<Rightarrow> string" where
  "number_to_string n =
     (if n < 10 then [digit_char n]
      else number_to_string (n div 10) @ [digit_char (n mod 10)])"

declare number_to_string.simps [simp del]

section \<open>The schedule resolver\<close>

definition schedule_url :: "string \<Rightarrow> string" where
  "schedule_url teamId =
     ''https://site.api.espn.com/apis/site/v2/sports/football/nfl/teams/'' @ teamId @ ''/schedule''"

text \<open>\<open>event.status?.type?.completed\<close>\<close>

definition completion_flag :: "event \<Rightarrow> bool option" where
  "completion_flag ev =
     Option.bind (Option.bind (event.status ev) event_status.type) status_type.completed"

text \<open>
  \<open>event.competitions[0]?.competitors?.find((c) => c.homeAway === tag)\<close>, once
  \<open>event.competitions\<close> is known to be an array.
\<close>

definition find_competitor :: "string \<Rightarrow> competition list \<Rightarrow> competitor option" where
  "find_competitor tag cs =
     Option.bind (Option.bind (first_elem cs) competitors)
       (List.find (\<lambda>c. homeAway c = tag))"

text \<open>The object literal \<open>game\<close> of the loop body.\<close>

definition build_game :: "event \<Rightarrow> competition list \<Rightarrow> game" where
  "build_game ev cs =
     (let homeCompetitor = find_competitor ''home'' cs;
          awayCompetitor = find_competitor ''away'' cs
      in \<lparr> game.ident = event.ident ev,
           game.date = event.date ev,
           game.name = event.name ev,
           game.shortName = event.shortName ev,
           game.completed = or_false (completion_flag ev),
           homeTeam = \<lparr> game_side.team =
               \<lparr> game_team.displayName =
                   or_default (Option.bind (Option.bind homeCompetitor competitor.team) raw_team.displayName) ''TBD'',
                 game_team.abbrev =
                   or_default (Option.bind (Option.bind homeCompetitor competitor.team) raw_team.abbrev) ''TBD'',
                 game_team.logo =
                   or_default (Option.bind (Option.bind homeCompetitor competitor.team) raw_team.logo) '''' \<rparr>,
             game_side.score = Option.bind homeCompetitor competitor.score \<rparr>,
           awayTeam = \<lparr> game_side.team =
               \<lparr> game_team.displayName =
                   or_default (Option.bind (Option.bind awayCompetitor competitor.team) raw_team.displayName) ''TBD'',
                 game_team.abbrev =
                   or_default (Option.bind (Option.bind awayCompetitor competitor.team) raw_team.abbrev) ''TBD'',
                 game_team.logo =
                   or_default (Option.bind (Option.bind awayCompetitor competitor.team) raw_team.logo) '''' \<rparr>,
             game_side.score = Option.bind awayCompetitor competitor.score \<rparr> \<rparr>)"

text \<open>
  Reading \<open>event.competitions[0]\<close> throws a \<open>TypeError\<close> when \<open>event.competitions\<close> is
  absent; the wording of its message is the engine's, here V8's.
\<close>

definition type_error_text :: string where
  "type_error_text = ''Cannot read properties of undefined (reading '0')''"

definition make_game :: "event \<Rightarrow> thrown + game" where
  "make_game ev =
     (case event.competitions ev of
        None \<Rightarrow> Inl (ErrorObject type_error_text)
      | Some cs \<Rightarrow> Inr (build_game ev cs))"

text \<open>
  The \<open>events.forEach\<close> loop. The pair is \<open>(completedGames, upcomingGames)\<close>; \<open>push\<close>
  appends at the end. A throw in the body leaves the loop.
\<close>

fun forEach_event ::
  "(string \<Rightarrow> int option) \<Rightarrow> int \<Rightarrow> event list \<Rightarrow> game list \<times> game list
     \<Rightarrow> thrown + (game list \<times> game list)" where
  "forEach_event getTime now [] acc = Inr acc"
| "forEach_event getTime now (ev # rest) (completedGames, upcomingGames) =
     (let gameDate = getTime (event.date ev) in
      case make_game ev of
        Inl err \<Rightarrow> Inl err
      | Inr g \<Rightarrow>
          if game.completed g then
            forEach_event getTime now rest (completedGames @ [g], upcomingGames)
          else if date_gt gameDate now then
            forEach_event getTime now rest (completedGames, upcomingGames @ [g])
          else forEach_event getTime now rest (completedGames, upcomingGames))"

text \<open>The two comparison functions passed to \<open>sort\<close>.\<close>

definition most_recent_first :: "(string \<Rightarrow> int option) \<Rightarrow> game comparefn" where
  "most_recent_first getTime a b = num_sub (getTime (game.date b)) (getTime (game.date a))"

definition earliest_first :: "(string \<Rightarrow> int option) \<Rightarrow> game comparefn" where
  "earliest_first getTime a b = num_sub (getTime (game.date a)) (getTime (game.date b))"

text \<open>From \<open>const now = new Date()\<close> to the argument of \<open>setTeamSchedule\<close>.\<close>

definition classify_events ::
  "(string \<Rightarrow> int option) \<Rightarrow> int \<Rightarrow> event list \<Rightarrow> thrown + team_schedule" where
  "classify_events getTime now evs =
     (case forEach_event getTime now evs ([], []) of
        Inl err \<Rightarrow> Inl err
      | Inr (completedGames, upcomingGames) \<Rightarrow>
          Inr \<lparr> lastGames = slice03 (array_sort (most_recent_first getTime) completedGames),
                nextGames = slice03 (array_sort (earliest_first getTime) upcomingGames) \<rparr>)"

text \<open>
  The body of the \<open>try\<close> block: \<open>Inl\<close> is the value that reaches \<open>catch\<close>. An array,
  empty or not, is truthy, so \<open>data.events || []\<close> replaces an absent list only.
\<close>

definition try_block ::
  "(string \<Rightarrow> thrown + response) \<Rightarrow> (string \<Rightarrow> int option) \<Rightarrow> int \<Rightarrow> string
     \<Rightarrow> thrown + team_schedule" where
  "try_block fetch getTime now teamId =
     (case fetch (schedule_url teamId) of
        Inl err \<Rightarrow> Inl err
      | Inr resp \<Rightarrow>
          if \<not> response.ok resp then
            Inl (ErrorObject (''HTTP error! status: '' @ number_to_string (response.status resp)))
          else
            (case response.json resp of
               Inl err \<Rightarrow> Inl err
             | Inr data \<Rightarrow>
                 classify_events getTime now
                   (case events data of None \<Rightarrow> [] | Some evs \<Rightarrow> evs)))"

text \<open>\<open>err instanceof Error ? err.message : "Failed to load schedule"\<close>\<close>

definition error_message :: "thrown \<Rightarrow> string" where
  "error_message err =
     (case err of ErrorObject message \<Rightarrow> message | NonError \<Rightarrow> ''Failed to load schedule'')"

text \<open>The state once the promise of \<open>fetchTeamSchedule\<close> has settled.\<close>

definition fetchTeamSchedule ::
  "(string \<Rightarrow> thrown + response) \<Rightarrow> (string \<Rightarrow> int option) \<Rightarrow> int \<Rightarrow> string
     \<Rightarrow> ui_state \<Rightarrow> ui_state" where
  "fetchTeamSchedule fetch getTime now teamId st =
     (let st1 = st\<lparr> scheduleLoading := True, scheduleError := None \<rparr>;
          st2 = (case try_block fetch getTime now teamId of
                   Inr schedule \<Rightarrow> st1\<lparr> teamSchedule := Some schedule \<rparr>
                 | Inl err \<Rightarrow> st1\<lparr> scheduleError := Some (error_message err) \<rparr>)
      in st2\<lparr> scheduleLoading := False \<rparr>)"

section \<open>The display of a final score\<close>

text \<open>\<open>{game.awayTeam.score || "0"}\<close> and \<open>{game.homeTeam.score || "0"}\<close> of a recent game.\<close>

definition score_text :: "game_side \<Rightarrow> string" where
  "score_text side = or_default (game_side.score side) ''0''"

section \<open>Properties and sample inputs\<close>

text \<open>
  A comparison function is a consistent order on a set of items when a key into the
  integers decides which of two items comes strictly first.
\<close>

definition ordered_by :: "'a comparefn \<Rightarrow> ('a \<Rightarrow> int) \<Rightarrow> 'a set \<Rightarrow> bool" where
  "ordered_by f k S = (\<forall>a\<in>S. \<forall>b\<in>S. (SortCompare f a b < 0) = (k a < k b))"

text \<open>\<open>a >= b\<close> on time values: false when either is NaN.\<close>

definition num_ge :: "int option \<Rightarrow> int option \<Rightarrow> bool" where
  "num_ge a b = (case a of None \<Rightarrow> False | Some x \<Rightarrow> (case b of None \<Rightarrow> False | Some y \<Rightarrow> y \<le> x))"

text \<open>The time values \<open>new Date(g.date).getTime()\<close> of a list of games, in order.\<close>

definition time_values :: "(string \<Rightarrow> int option) \<Rightarrow> game list \<Rightarrow> int option list" where
  "time_values getTime gs = map (\<lambda>g. getTime (game.date g)) gs"

definition non_increasing :: "int option list \<Rightarrow> bool" where
  "non_increasing ts = sorted_wrt num_ge ts"

definition non_decreasing :: "int option list \<Rightarrow> bool" where
  "non_decreasing ts = sorted_wrt (\<lambda>a b. num_ge b a) ts"

text \<open>
  Inputs for the concrete instances. \<open>sample_getTime\<close> is the date parser on the ISO
  strings used below (their true epoch milliseconds) and NaN elsewhere; \<open>sample_now\<close>
  is 2024-01-10T18:00Z.
\<close>

definition sample_getTime :: "string \<Rightarrow> int option" where
  "sample_getTime = map_of
     [(''2024-01-05T18:00Z'', 1704477600000),
      (''2024-01-06T18:00Z'', 1704564000000),
      (''2024-01-07T18:00Z'', 1704650400000),
      (''2024-01-08T18:00Z'', 1704736800000),
      (''2024-01-09T18:00Z'', 1704823200000),
      (''2024-01-14T18:00Z'', 1705255200000),
      (''2024-01-21T18:00Z'', 1705860000000)]"

definition sample_now :: int where
  "sample_now = 1704909600000"

definition sample_competition :: competition where
  "sample_competition = \<lparr> competitors = Some
     [ \<lparr> homeAway = ''home'',
         competitor.team = Some \<lparr> raw_team.displayName = Some ''New York Giants'',
           raw_team.abbrev = Some ''NYG'', raw_team.logo = Some ''nyg.png'' \<rparr>,
         competitor.score = Some ''17'' \<rparr>,
       \<lparr> homeAway = ''away'',
         competitor.team = Some \<lparr> raw_team.displayName = Some ''Dallas Cowboys'',
           raw_team.abbrev = Some ''DAL'', raw_team.logo = Some ''dal.png'' \<rparr>,
         competitor.score = Some ''24'' \<rparr> ] \<rparr>"

definition sample_event :: "string \<Rightarrow> string \<Rightarrow> event_status option \<Rightarrow> event" where
  "sample_event i d st =
     \<lparr> event.ident = i, event.date = d, event.name = ''Dallas Cowboys at New York Giants'',
       event.shortName = ''DAL @ NYG'', status = st, competitions = Some [sample_competition] \<rparr>"

definition flag :: "bool \<Rightarrow> event_status option" where
  "flag b = Some \<lparr> type = Some \<lparr> status_type.completed = Some b \<rparr> \<rparr>"

text \<open>Three completed events, the second with a date that does not parse.\<close>

definition undated_events :: "event list" where
  "undated_events =
     [sample_event ''1'' ''2024-01-05T18:00Z'' (flag True),
      sample_event ''2'' ''TBD'' (flag True),
      sample_event ''3'' ''2024-01-09T18:00Z'' (flag True)]"

definition undated_schedule :: team_schedule where
  "undated_schedule =
     \<lparr> lastGames = map (\<lambda>ev. build_game ev [sample_competition]) undated_events,
       nextGames = [] \<rparr>"

text \<open>
  Five completed events, two future ones (one without a status), and two that are neither
  completed nor in the future (a past date, a date that does not parse).
\<close>

definition season_events :: "event list" where
  "season_events =
     [sample_event ''1'' ''2024-01-05T18:00Z'' (flag True),
      sample_event ''6'' ''2024-01-21T18:00Z'' (flag False),
      sample_event ''2'' ''2024-01-06T18:00Z'' (flag True),
      sample_event ''3'' ''2024-01-07T18:00Z'' (flag True),
      sample_event ''7'' ''2024-01-14T18:00Z'' None,
      sample_event ''4'' ''2024-01-08T18:00Z'' (flag True),
      sample_event ''8'' ''2024-01-06T18:00Z'' (flag False),
      sample_event ''5'' ''2024-01-09T18:00Z'' (flag True),
      sample_event ''9'' ''TBD'' (flag False)]"

text \<open>
  Responses for the concrete instances, and the state that \<open>handleTeamClick\<close> leaves
  before it calls \<open>fetchTeamSchedule\<close> on a first selection.
\<close>

definition not_found_response :: response where
  "not_found_response =
     \<lparr> ok = False, response.status = 404, json = Inl (ErrorObject ''Unexpected token'') \<rparr>"

definition no_events_response :: response where
  "no_events_response = \<lparr> ok = True, response.status = 200, json = Inr \<lparr> events = None \<rparr> \<rparr>"

definition empty_events_response :: response where
  "empty_events_response = \<lparr> ok = True, response.status = 200, json = Inr \<lparr> events = Some [] \<rparr> \<rparr>"

definition clicked_state :: ui_state where
  "clicked_state = \<lparr> teamSchedule = None, scheduleLoading = False, scheduleError = None \<rparr>"

text \<open>
  Events for the normalisation instances: one whose only competitor is the away side, and
  one whose home competitor has an empty display name, no logo and no score.
\<close>

definition away_only_event :: event where
  "away_only_event =
     \<lparr> event.ident = ''10'', event.date = ''2024-01-14T18:00Z'', event.name = ''Dallas Cowboys at TBD'',
       event.shortName = ''DAL @ TBD'', status = None,
       competitions = Some [\<lparr> competitors = Some
         [ \<lparr> homeAway = ''away'',
             competitor.team = Some \<lparr> raw_team.displayName = Some ''Dallas Cowboys'',
               raw_team.abbrev = Some ''DAL'', raw_team.logo = Some ''dal.png'' \<rparr>,
             competitor.score = None \<rparr> ] \<rparr>] \<rparr>"

definition partial_home :: competitor where
  "partial_home =
     \<lparr> homeAway = ''home'',
       competitor.team = Some \<lparr> raw_team.displayName = Some '''',
         raw_team.abbrev = Some ''NYG'', raw_team.logo = None \<rparr>,
       competitor.score = None \<rparr>"

definition partial_event :: event where
  "partial_event =
     \<lparr> event.ident = ''11'', event.date = ''2024-01-09T18:00Z'', event.name = ''Dallas Cowboys at New York Giants'',
       event.shortName = ''DAL @ NYG'', status = flag True,
       competitions = Some [\<lparr> competitors = Some
         [ \<lparr> homeAway = ''away'',
             competitor.team = Some \<lparr> raw_team.displayName = Some ''Dallas Cowboys'',
               raw_team.abbrev = Some ''DAL'', raw_team.logo = Some ''dal.png'' \<rparr>,
             competitor.score = Some ''24'' \<rparr>,
           partial_home ] \<rparr>] \<rparr>"




section \<open>Auxiliary lemmas\<close>




lemma set_insert_at: "set (take k run @ pivot # drop k run) = insert pivot (set run)"
proof -
  have "set (take k run) \<union> set (drop k run) = set run"
    using set_append [of "take k run" "drop k run"] by simp
  then show ?thesis by auto
qed

lemma set_BinaryInsertionSort: "set (BinaryInsertionSort f run rest) = set run \<union> set rest"
proof (induction rest arbitrary: run)
  case Nil
  show ?case by simp
next
  case (Cons pivot rest)
  let ?k = "binary_search f pivot run 0 (length run)"
  have "set (BinaryInsertionSort f run (pivot # rest)) =
        set (take ?k run @ pivot # drop ?k run) \<union> set rest"
    by (simp only: BinaryInsertionSort.simps Let_def Cons)
  also have "\<dots> = insert pivot (set run) \<union> set rest"
    by (simp only: set_insert_at)
  finally show ?case by simp
qed

lemma length_BinaryInsertionSort: "length (BinaryInsertionSort f run rest) = length run + length rest"
  by (induction rest arbitrary: run) (simp_all add: Let_def)

lemma CountAndMakeRun_take_drop:
  "\<exists>n d. CountAndMakeRun f xs = (if d then rev (take n xs) else take n xs, drop n xs)"
proof (cases xs)
  case Nil
  then have "CountAndMakeRun f xs = (if False then rev (take 0 xs) else take 0 xs, drop 0 xs)"
    by (simp add: CountAndMakeRun_def)
  then show ?thesis by blast
next
  case (Cons x ys)
  show ?thesis
  proof (cases ys)
    case Nil
    with Cons have "CountAndMakeRun f xs = (if False then rev (take 1 xs) else take 1 xs, drop 1 xs)"
      by (simp add: CountAndMakeRun_def)
    then show ?thesis by blast
  next
    case (Cons y zs)
    with \<open>xs = x # ys\<close> have "CountAndMakeRun f xs =
        (if SortCompare f y x < 0 then rev (take (2 + extend_run f (SortCompare f y x < 0) y zs) xs)
         else take (2 + extend_run f (SortCompare f y x < 0) y zs) xs,
         drop (2 + extend_run f (SortCompare f y x < 0) y zs) xs)"
      by (simp add: CountAndMakeRun_def Let_def)
    then show ?thesis by blast
  qed
qed

lemma CountAndMakeRun_parts:
  assumes "CountAndMakeRun f xs = (run, rest)"
  shows "set run \<union> set rest = set xs" and "length run + length rest = length xs"
proof -
  from CountAndMakeRun_take_drop [of f xs] assms obtain n d
    where r: "run = (if d then rev (take n xs) else take n xs)" "rest = drop n xs" by auto
  have "set (take n xs) \<union> set (drop n xs) = set xs"
    using set_append [of "take n xs" "drop n xs"] by simp
  with r show "set run \<union> set rest = set xs" by (cases d) simp_all
  from r show "length run + length rest = length xs" by (cases d) simp_all
qed

lemma set_array_sort: "set (array_sort f xs) = set xs"
proof (cases "length xs < 2")
  case True
  then show ?thesis by (simp add: array_sort_def)
next
  case False
  obtain run rest where r: "CountAndMakeRun f xs = (run, rest)" by (cases "CountAndMakeRun f xs")
  with False show ?thesis
    by (simp add: array_sort_def set_BinaryInsertionSort CountAndMakeRun_parts(1) [OF r])
qed

lemma length_array_sort: "length (array_sort f xs) = length xs"
proof (cases "length xs < 2")
  case True
  then show ?thesis by (simp add: array_sort_def)
next
  case False
  obtain run rest where r: "CountAndMakeRun f xs = (run, rest)" by (cases "CountAndMakeRun f xs")
  with False show ?thesis
    by (simp add: array_sort_def length_BinaryInsertionSort CountAndMakeRun_parts(2) [OF r])
qed

lemma ordered_byD: "ordered_by f k S \<Longrightarrow> a \<in> S \<Longrightarrow> b \<in> S \<Longrightarrow> (SortCompare f a b < 0) = (k a < k b)"
  by (simp add: ordered_by_def)

lemma ordered_by_mono: "ordered_by f k S \<Longrightarrow> T \<subseteq> S \<Longrightarrow> ordered_by f k T"
  by (auto simp: ordered_by_def)

lemma binary_search_bounds:
  "sorted (map k arr) \<Longrightarrow> ordered_by f k (insert pivot (set arr)) \<Longrightarrow>
   left \<le> right \<Longrightarrow> right \<le> length arr \<Longrightarrow>
   (\<forall>i<left. k (arr ! i) \<le> k pivot) \<Longrightarrow>
   (\<forall>i. right \<le> i \<and> i < length arr \<longrightarrow> k pivot < k (arr ! i)) \<Longrightarrow>
   binary_search f pivot arr left right \<le> length arr
   \<and> (\<forall>i<binary_search f pivot arr left right. k (arr ! i) \<le> k pivot)
   \<and> (\<forall>i. binary_search f pivot arr left right \<le> i \<and> i < length arr \<longrightarrow> k pivot < k (arr ! i))"
proof (induction f pivot arr left right rule: binary_search.induct)
  case (1 f pivot arr left right)
  note srt = "1.prems"(1) and ord = "1.prems"(2)
  show ?case
  proof (cases "left < right")
    case False
    then have "binary_search f pivot arr left right = left"
      by (simp add: binary_search.simps [of f pivot arr left right])
    moreover from False "1.prems"(3) have "left = right" by simp
    ultimately show ?thesis using "1.prems" by simp
  next
    case True
    let ?mid = "left + (right - left) div 2"
    from True "1.prems" have mid: "left \<le> ?mid" "?mid < right" "?mid < length arr" by auto
    then have inS: "arr ! ?mid \<in> set arr" by simp
    have cmp: "(SortCompare f pivot (arr ! ?mid) < 0) = (k pivot < k (arr ! ?mid))"
      using ordered_byD [OF ord, of pivot "arr ! ?mid"] inS by simp
    have mono: "k (arr ! i) \<le> k (arr ! j)" if "i \<le> j" "j < length arr" for i j
      using srt that by (simp add: sorted_iff_nth_mono)
    show ?thesis
    proof (cases "SortCompare f pivot (arr ! ?mid) < 0")
      case lt: True
      have up: "\<forall>i. ?mid \<le> i \<and> i < length arr \<longrightarrow> k pivot < k (arr ! i)"
      proof (intro allI impI)
        fix i assume "?mid \<le> i \<and> i < length arr"
        then have "k (arr ! ?mid) \<le> k (arr ! i)" using mono by blast
        with lt cmp show "k pivot < k (arr ! i)" by simp
      qed
      have eq: "binary_search f pivot arr left right = binary_search f pivot arr left ?mid"
        using True lt by (simp add: binary_search.simps [of f pivot arr left right] Let_def)
      have "binary_search f pivot arr left ?mid \<le> length arr
         \<and> (\<forall>i<binary_search f pivot arr left ?mid. k (arr ! i) \<le> k pivot)
         \<and> (\<forall>i. binary_search f pivot arr left ?mid \<le> i \<and> i < length arr \<longrightarrow> k pivot < k (arr ! i))"
      proof (rule "1.IH"(1) [OF True refl refl lt srt ord])
        show "left \<le> ?mid" by (rule mid(1))
        show "?mid \<le> length arr" using mid(3) by simp
        show "\<forall>i<left. k (arr ! i) \<le> k pivot" by (rule "1.prems"(5))
        show "\<forall>i. ?mid \<le> i \<and> i < length arr \<longrightarrow> k pivot < k (arr ! i)" by (rule up)
      qed
      with eq show ?thesis by simp
    next
      case ge: False
      have low: "\<forall>i<?mid + 1. k (arr ! i) \<le> k pivot"
      proof (intro allI impI)
        fix i assume "i < ?mid + 1"
        then have "k (arr ! i) \<le> k (arr ! ?mid)" using mono mid by simp
        with ge cmp show "k (arr ! i) \<le> k pivot" by simp
      qed
      have eq: "binary_search f pivot arr left right = binary_search f pivot arr (?mid + 1) right"
        using True ge by (simp add: binary_search.simps [of f pivot arr left right] Let_def)
      have "binary_search f pivot arr (?mid + 1) right \<le> length arr
         \<and> (\<forall>i<binary_search f pivot arr (?mid + 1) right. k (arr ! i) \<le> k pivot)
         \<and> (\<forall>i. binary_search f pivot arr (?mid + 1) right \<le> i \<and> i < length arr \<longrightarrow> k pivot < k (arr ! i))"
      proof (rule "1.IH"(2) [OF True refl refl ge srt ord])
        show "?mid + 1 \<le> right" using mid(2) by simp
        show "right \<le> length arr" by (rule "1.prems"(4))
        show "\<forall>i<?mid + 1. k (arr ! i) \<le> k pivot" by (rule low)
        show "\<forall>i. right \<le> i \<and> i < length arr \<longrightarrow> k pivot < k (arr ! i)" by (rule "1.prems"(6))
      qed
      with eq show ?thesis by simp
    qed
  qed
qed

lemma insert_at_sorted:
  assumes "sorted (map k arr)" and "p \<le> length arr"
      and lo: "\<forall>i<p. k (arr ! i) \<le> k pivot"
      and hi: "\<forall>i. p \<le> i \<and> i < length arr \<longrightarrow> k pivot < k (arr ! i)"
  shows "sorted (map k (take p arr @ pivot # drop p arr))"
    and "filter (\<lambda>x. k x = c) (take p arr @ pivot # drop p arr) =
         filter (\<lambda>x. k x = c) arr @ (if k pivot = c then [pivot] else [])"
proof -
  have t: "k x \<le> k pivot" if "x \<in> set (take p arr)" for x
  proof -
    from that obtain i where "i < length (take p arr)" "x = take p arr ! i"
      by (auto simp: in_set_conv_nth)
    with lo show ?thesis by simp
  qed
  have d: "k pivot < k x" if "x \<in> set (drop p arr)" for x
  proof -
    from that obtain i where i: "i < length (drop p arr)" "x = drop p arr ! i"
      by (auto simp: in_set_conv_nth)
    with assms(2) have "x = arr ! (p + i)" "p + i < length arr" by simp_all
    with hi show ?thesis by simp
  qed
  have st: "sorted (map k (take p arr))" and sd: "sorted (map k (drop p arr))"
    using assms(1) by (simp_all add: take_map [symmetric] drop_map [symmetric] sorted_wrt_take sorted_wrt_drop)
  show "sorted (map k (take p arr @ pivot # drop p arr))"
    using st sd t d by (fastforce simp: sorted_append)
  have split: "filter (\<lambda>x. k x = c) arr =
      filter (\<lambda>x. k x = c) (take p arr) @ filter (\<lambda>x. k x = c) (drop p arr)"
    using filter_append [of "\<lambda>x. k x = c" "take p arr" "drop p arr"] by simp
  show "filter (\<lambda>x. k x = c) (take p arr @ pivot # drop p arr) =
         filter (\<lambda>x. k x = c) arr @ (if k pivot = c then [pivot] else [])"
  proof (cases "k pivot = c")
    case True
    have "k x \<noteq> c" if "x \<in> set (drop p arr)" for x
      using d [OF that] True by simp
    then have "filter (\<lambda>x. k x = c) (drop p arr) = []"
      by (simp add: filter_empty_conv)
    with True split show ?thesis by simp
  next
    case False
    with split show ?thesis by simp
  qed
qed

lemma BinaryInsertionSort_ordered:
  "sorted (map k run) \<Longrightarrow> ordered_by f k (set run \<union> set rest) \<Longrightarrow>
   sorted (map k (BinaryInsertionSort f run rest))
   \<and> filter (\<lambda>x. k x = c) (BinaryInsertionSort f run rest) =
       filter (\<lambda>x. k x = c) run @ filter (\<lambda>x. k x = c) rest"
proof (induction rest arbitrary: run)
  case Nil
  then show ?case by simp
next
  case (Cons pivot rest)
  let ?p = "binary_search f pivot run 0 (length run)"
  let ?run = "take ?p run @ pivot # drop ?p run"
  have ord: "ordered_by f k (insert pivot (set run))"
    using Cons.prems(2) by (rule ordered_by_mono) auto
  have b: "?p \<le> length run
         \<and> (\<forall>i<?p. k (run ! i) \<le> k pivot)
         \<and> (\<forall>i. ?p \<le> i \<and> i < length run \<longrightarrow> k pivot < k (run ! i))"
    using binary_search_bounds [OF Cons.prems(1) ord, of 0 "length run"] by simp
  then have s: "sorted (map k ?run)"
    and f: "filter (\<lambda>x. k x = c) ?run = filter (\<lambda>x. k x = c) run @ (if k pivot = c then [pivot] else [])"
    using insert_at_sorted [OF Cons.prems(1), of ?p pivot] by simp_all
  have "set ?run = insert pivot (set run)" by (rule set_insert_at)
  then have o: "ordered_by f k (set ?run \<union> set rest)"
    using Cons.prems(2) by (simp only:) (rule ordered_by_mono, auto)
  have e: "BinaryInsertionSort f run (pivot # rest) = BinaryInsertionSort f ?run rest"
    by (simp only: BinaryInsertionSort.simps Let_def)
  have 1: "sorted (map k (BinaryInsertionSort f ?run rest))"
    by (rule conjunct1 [OF Cons.IH [OF s o]])
  have "filter (\<lambda>x. k x = c) (BinaryInsertionSort f ?run rest) =
        filter (\<lambda>x. k x = c) ?run @ filter (\<lambda>x. k x = c) rest"
    by (rule conjunct2 [OF Cons.IH [OF s o]])
  also have "\<dots> = filter (\<lambda>x. k x = c) run @ filter (\<lambda>x. k x = c) (pivot # rest)"
    unfolding f by simp
  finally show ?case unfolding e using 1 by (rule conjI [rotated])
qed

lemma extend_run_ascending:
  "ordered_by f k (insert prev (set rest)) \<Longrightarrow>
   sorted (map k (prev # take (extend_run f False prev rest) rest))"
proof (induction rest arbitrary: prev)
  case Nil
  show ?case by simp
next
  case (Cons cur rest)
  have c: "(SortCompare f cur prev < 0) = (k cur < k prev)"
    using ordered_byD [OF Cons.prems, of cur prev] by simp
  show ?case
  proof (cases "SortCompare f cur prev < 0")
    case True
    then show ?thesis by simp
  next
    case False
    have "ordered_by f k (insert cur (set rest))"
      using Cons.prems by (rule ordered_by_mono) auto
    from Cons.IH [OF this] False c show ?thesis
      by (simp add: Let_def sorted2 del: sorted_wrt.simps)
  qed
qed

lemma extend_run_descending:
  "ordered_by f k (insert prev (set rest)) \<Longrightarrow>
   sorted_wrt (\<lambda>a b. k b < k a) (prev # take (extend_run f True prev rest) rest)"
proof (induction rest arbitrary: prev)
  case Nil
  show ?case by simp
next
  case (Cons cur rest)
  have c: "(SortCompare f cur prev < 0) = (k cur < k prev)"
    using ordered_byD [OF Cons.prems, of cur prev] by simp
  have tr: "transp (\<lambda>a b. k b < k a)" by (auto simp: transp_def)
  show ?case
  proof (cases "SortCompare f cur prev < 0")
    case False
    then show ?thesis by (simp add: Let_def)
  next
    case True
    have "ordered_by f k (insert cur (set rest))"
      using Cons.prems by (rule ordered_by_mono) auto
    from Cons.IH [OF this] True c show ?thesis
      by (simp add: Let_def sorted_wrt2 [OF tr] del: sorted_wrt.simps)
  qed
qed

lemma filter_strictly_descending:
  "sorted_wrt (\<lambda>a b. (k b :: int) < k a) xs \<Longrightarrow> length (filter (\<lambda>x. k x = c) xs) \<le> 1"
proof (induction xs)
  case Nil
  show ?case by simp
next
  case (Cons x xs)
  show ?case
  proof (cases "k x = c")
    case True
    have "k y \<noteq> c" if "y \<in> set xs" for y
    proof -
      from Cons.prems that have "k y < k x" by simp
      with True show ?thesis by auto
    qed
    then have "filter (\<lambda>x. k x = c) xs = []"
      by (simp add: filter_empty_conv)
    with True show ?thesis by simp
  next
    case False
    with Cons show ?thesis by simp
  qed
qed

lemma rev_short: "length xs \<le> 1 \<Longrightarrow> rev xs = xs"
  by (cases xs) auto

lemma CountAndMakeRun_ordered:
  assumes "ordered_by f k (set xs)" and "CountAndMakeRun f xs = (run, rest)"
  shows "sorted (map k run)"
    and "filter (\<lambda>x. k x = c) run @ filter (\<lambda>x. k x = c) rest = filter (\<lambda>x. k x = c) xs"
proof -
  have "sorted (map k run)
    \<and> filter (\<lambda>x. k x = c) run @ filter (\<lambda>x. k x = c) rest = filter (\<lambda>x. k x = c) xs"
  proof (cases xs)
    case Nil
    with assms(2) show ?thesis by (simp add: CountAndMakeRun_def)
  next
    case (Cons hi ys)
    show ?thesis
    proof (cases ys)
      case Nil
      with Cons assms(2) show ?thesis by (auto simp: CountAndMakeRun_def)
    next
      case (Cons lo zs)
      note xs = \<open>xs = hi # ys\<close> \<open>ys = lo # zs\<close>
      have c: "(SortCompare f lo hi < 0) = (k lo < k hi)"
        using ordered_byD [OF assms(1), of lo hi] xs by simp
      have o: "ordered_by f k (insert lo (set zs))"
        using assms(1) by (rule ordered_by_mono) (auto simp: xs)
      let ?n = "\<lambda>d. 2 + extend_run f d lo zs"
      have tk: "take (?n d) xs = hi # lo # take (extend_run f d lo zs) zs" for d
        by (simp add: xs)
      have whole: "filter (\<lambda>x. k x = c) (take (?n d) xs) @ filter (\<lambda>x. k x = c) (drop (?n d) xs) =
            filter (\<lambda>x. k x = c) xs" for d
        using filter_append [of "\<lambda>x. k x = c" "take (?n d) xs" "drop (?n d) xs"]
        by (simp del: filter_append)
      show ?thesis
      proof (cases "SortCompare f lo hi < 0")
        case False
        with assms(2) have r: "run = take (?n False) xs" "rest = drop (?n False) xs"
          by (simp_all add: CountAndMakeRun_def xs Let_def)
        from False c extend_run_ascending [OF o]
        have "sorted (map k (take (?n False) xs))"
          unfolding tk by (simp add: sorted2 del: sorted_wrt.simps)
        with r whole [of False] show ?thesis by simp
      next
        case True
        with assms(2) have r: "run = rev (take (?n True) xs)" "rest = drop (?n True) xs"
          by (simp_all add: CountAndMakeRun_def xs Let_def)
        have tr: "transp (\<lambda>a b. k b < k a)" by (auto simp: transp_def)
        from True c extend_run_descending [OF o]
        have d: "sorted_wrt (\<lambda>a b. k b < k a) (take (?n True) xs)"
          unfolding tk by (simp add: sorted_wrt2 [OF tr] del: sorted_wrt.simps)
        then have "sorted_wrt (\<lambda>a b. k a < k b) (rev (take (?n True) xs))"
          by (simp add: sorted_wrt_rev)
        then have "sorted_wrt (\<lambda>a b. k a \<le> k b) (rev (take (?n True) xs))"
          by (rule sorted_wrt_mono_rel [rotated]) simp
        then have s: "sorted (map k run)" unfolding r by (simp add: sorted_map)
        have "filter (\<lambda>x. k x = c) (rev (take (?n True) xs)) = filter (\<lambda>x. k x = c) (take (?n True) xs)"
          using rev_short [OF filter_strictly_descending [OF d, of c]] by (simp add: rev_filter)
        with r whole [of True] s show ?thesis by simp
      qed
    qed
  qed
  then show "sorted (map k run)"
    and "filter (\<lambda>x. k x = c) run @ filter (\<lambda>x. k x = c) rest = filter (\<lambda>x. k x = c) xs"
    by simp_all
qed

lemma array_sort_ordered:
  assumes "ordered_by f k (set xs)"
  shows "sorted (map k (array_sort f xs))"
    and "filter (\<lambda>x. k x = c) (array_sort f xs) = filter (\<lambda>x. k x = c) xs"
proof -
  have "sorted (map k (array_sort f xs))
      \<and> filter (\<lambda>x. k x = c) (array_sort f xs) = filter (\<lambda>x. k x = c) xs"
  proof (cases "length xs < 2")
    case True
    then have "length (map k xs) \<le> 1" by simp
    then have "sorted (map k xs)" by (rule sorted01)
    with True show ?thesis by (simp add: array_sort_def)
  next
    case False
    obtain run rest where r: "CountAndMakeRun f xs = (run, rest)" by (cases "CountAndMakeRun f xs")
    have o: "ordered_by f k (set run \<union> set rest)"
      using assms CountAndMakeRun_parts(1) [OF r] by simp
    from BinaryInsertionSort_ordered [OF CountAndMakeRun_ordered(1) [OF assms r] o, of c]
      CountAndMakeRun_ordered(2) [OF assms r, of c] False r
    show ?thesis by (simp add: array_sort_def)
  qed
  then show "sorted (map k (array_sort f xs))"
    and "filter (\<lambda>x. k x = c) (array_sort f xs) = filter (\<lambda>x. k x = c) xs"
    by simp_all
qed

lemma make_game_date: "make_game ev = Inr g \<Longrightarrow> game.date g = event.date ev"
  by (auto simp: make_game_def build_game_def Let_def split: option.splits)

lemma make_game_completed: "make_game ev = Inr g \<Longrightarrow> game.completed g = or_false (completion_flag ev)"
  by (auto simp: make_game_def build_game_def Let_def split: option.splits)

lemma make_game_Some: "event.competitions ev = Some cs \<Longrightarrow> make_game ev = Inr (build_game ev cs)"
  by (simp add: make_game_def)

lemma forEach_event_closed:
  assumes "list_all2 (\<lambda>ev g. make_game ev = Inr g) evs games"
  shows "forEach_event getTime now evs (cg, ug) =
           Inr (cg @ filter game.completed games,
                ug @ filter (\<lambda>g. \<not> game.completed g \<and> date_gt (getTime (game.date g)) now) games)"
  using assms
proof (induction evs games arbitrary: cg ug rule: list_all2_induct)
  case Nil
  show ?case by simp
next
  case (Cons ev evs g games)
  from Cons.hyps(1) have d: "event.date ev = game.date g" by (simp add: make_game_date)
  show ?case using Cons.hyps(1) by (simp add: Cons.IH d)
qed

lemma games_exist:
  assumes "\<forall>ev\<in>set evs. event.competitions ev \<noteq> None"
  shows "\<exists>games. list_all2 (\<lambda>ev g. make_game ev = Inr g) evs games"
  using assms
proof (induction evs)
  case Nil
  show ?case by simp
next
  case (Cons ev evs)
  then obtain games where "list_all2 (\<lambda>ev g. make_game ev = Inr g) evs games" by auto
  moreover from Cons.prems obtain cs where "event.competitions ev = Some cs" by auto
  ultimately have "list_all2 (\<lambda>ev g. make_game ev = Inr g) (ev # evs) (build_game ev cs # games)"
    by (simp add: make_game_Some)
  then show ?case by blast
qed

lemma classify_events_closed:
  assumes "list_all2 (\<lambda>ev g. make_game ev = Inr g) evs games"
  shows "classify_events getTime now evs =
     Inr \<lparr> lastGames = slice03 (array_sort (most_recent_first getTime) (filter game.completed games)),
           nextGames = slice03 (array_sort (earliest_first getTime)
             (filter (\<lambda>g. \<not> game.completed g \<and> date_gt (getTime (game.date g)) now) games)) \<rparr>"
  by (simp add: classify_events_def forEach_event_closed [OF assms])

lemma SortCompare_most_recent_first:
  "getTime (game.date a) = Some x \<Longrightarrow> getTime (game.date b) = Some y \<Longrightarrow>
   SortCompare (most_recent_first getTime) a b = y - x"
  by (simp add: SortCompare_def most_recent_first_def num_sub_def)

lemma SortCompare_earliest_first:
  "getTime (game.date a) = Some x \<Longrightarrow> getTime (game.date b) = Some y \<Longrightarrow>
   SortCompare (earliest_first getTime) a b = x - y"
  by (simp add: SortCompare_def earliest_first_def num_sub_def)

lemma most_recent_first_ordered:
  assumes "\<forall>g\<in>set xs. getTime (game.date g) \<noteq> None"
  shows "ordered_by (most_recent_first getTime) (\<lambda>g. - the (getTime (game.date g))) (set xs)"
  unfolding ordered_by_def
proof (intro ballI)
  fix a b assume "a \<in> set xs" "b \<in> set xs"
  with assms obtain x y where "getTime (game.date a) = Some x" "getTime (game.date b) = Some y"
    by (meson not_None_eq)
  then show "(SortCompare (most_recent_first getTime) a b < 0) =
             (- the (getTime (game.date a)) < - the (getTime (game.date b)))"
    by (simp add: SortCompare_most_recent_first)
qed

lemma earliest_first_ordered:
  assumes "\<forall>g\<in>set xs. getTime (game.date g) \<noteq> None"
  shows "ordered_by (earliest_first getTime) (\<lambda>g. the (getTime (game.date g))) (set xs)"
  unfolding ordered_by_def
proof (intro ballI)
  fix a b assume "a \<in> set xs" "b \<in> set xs"
  with assms obtain x y where "getTime (game.date a) = Some x" "getTime (game.date b) = Some y"
    by (meson not_None_eq)
  then show "(SortCompare (earliest_first getTime) a b < 0) =
             (the (getTime (game.date a)) < the (getTime (game.date b)))"
    by (simp add: SortCompare_earliest_first)
qed

lemma most_recent_first_sorted:
  assumes "\<forall>g\<in>set xs. getTime (game.date g) \<noteq> None"
  shows "non_increasing (time_values getTime (array_sort (most_recent_first getTime) xs))"
proof -
  let ?f = "most_recent_first getTime"
  let ?k = "\<lambda>g. - the (getTime (game.date g))"
  have "sorted (map ?k (array_sort ?f xs))"
    by (rule array_sort_ordered(1) [OF most_recent_first_ordered [OF assms]])
  then have "sorted_wrt (\<lambda>a b. ?k a \<le> ?k b) (array_sort ?f xs)"
    by (simp add: sorted_map)
  then have "sorted_wrt (\<lambda>a b. num_ge (getTime (game.date a)) (getTime (game.date b)))
               (array_sort ?f xs)"
  proof (rule sorted_wrt_mono_rel [rotated])
    fix a b assume ab: "a \<in> set (array_sort ?f xs)" "b \<in> set (array_sort ?f xs)"
      and le: "?k a \<le> ?k b"
    from assms ab obtain x y
      where "getTime (game.date a) = Some x" "getTime (game.date b) = Some y"
      unfolding set_array_sort by (meson not_None_eq)
    with le show "num_ge (getTime (game.date a)) (getTime (game.date b))"
      by (simp add: num_ge_def)
  qed
  then show ?thesis
    by (simp add: non_increasing_def time_values_def sorted_wrt_map)
qed

lemma earliest_first_sorted:
  assumes "\<forall>g\<in>set xs. getTime (game.date g) \<noteq> None"
  shows "non_decreasing (time_values getTime (array_sort (earliest_first getTime) xs))"
proof -
  let ?f = "earliest_first getTime"
  let ?k = "\<lambda>g. the (getTime (game.date g))"
  have "sorted (map ?k (array_sort ?f xs))"
    by (rule array_sort_ordered(1) [OF earliest_first_ordered [OF assms]])
  then have "sorted_wrt (\<lambda>a b. ?k a \<le> ?k b) (array_sort ?f xs)"
    by (simp add: sorted_map)
  then have "sorted_wrt (\<lambda>a b. num_ge (getTime (game.date b)) (getTime (game.date a)))
               (array_sort ?f xs)"
  proof (rule sorted_wrt_mono_rel [rotated])
    fix a b assume ab: "a \<in> set (array_sort ?f xs)" "b \<in> set (array_sort ?f xs)"
      and le: "?k a \<le> ?k b"
    from assms ab obtain x y
      where "getTime (game.date a) = Some x" "getTime (game.date b) = Some y"
      unfolding set_array_sort by (meson not_None_eq)
    with le show "num_ge (getTime (game.date b)) (getTime (game.date a))"
      by (simp add: num_ge_def)
  qed
  then show ?thesis
    by (simp add: non_decreasing_def time_values_def sorted_wrt_map)
qed

lemma most_recent_first_stable:
  assumes "\<forall>g\<in>set xs. getTime (game.date g) \<noteq> None"
  shows "filter (\<lambda>g. getTime (game.date g) = t) (array_sort (most_recent_first getTime) xs) =
         filter (\<lambda>g. getTime (game.date g) = t) xs"
proof (cases t)
  case None
  with assms show ?thesis by (simp add: filter_empty_conv [THEN iffD2] set_array_sort)
next
  case (Some v)
  let ?f = "most_recent_first getTime"
  let ?k = "\<lambda>g. - the (getTime (game.date g))"
  have eq: "(getTime (game.date g) = t) = (?k g = - v)" if "g \<in> set xs" for g
  proof -
    from assms that obtain x where "getTime (game.date g) = Some x" by (meson not_None_eq)
    with Some show ?thesis by simp
  qed
  have "filter (\<lambda>g. getTime (game.date g) = t) (array_sort ?f xs) =
        filter (\<lambda>g. ?k g = - v) (array_sort ?f xs)"
    by (rule filter_cong) (simp_all add: set_array_sort eq)
  also have "\<dots> = filter (\<lambda>g. ?k g = - v) xs"
    by (rule array_sort_ordered(2) [OF most_recent_first_ordered [OF assms]])
  also have "\<dots> = filter (\<lambda>g. getTime (game.date g) = t) xs"
    by (rule filter_cong) (simp_all add: eq)
  finally show ?thesis .
qed

lemma earliest_first_stable:
  assumes "\<forall>g\<in>set xs. getTime (game.date g) \<noteq> None"
  shows "filter (\<lambda>g. getTime (game.date g) = t) (array_sort (earliest_first getTime) xs) =
         filter (\<lambda>g. getTime (game.date g) = t) xs"
proof (cases t)
  case None
  with assms show ?thesis by (simp add: filter_empty_conv [THEN iffD2] set_array_sort)
next
  case (Some v)
  let ?f = "earliest_first getTime"
  let ?k = "\<lambda>g. the (getTime (game.date g))"
  have eq: "(getTime (game.date g) = t) = (?k g = v)" if "g \<in> set xs" for g
  proof -
    from assms that obtain x where "getTime (game.date g) = Some x" by (meson not_None_eq)
    with Some show ?thesis by simp
  qed
  have "filter (\<lambda>g. getTime (game.date g) = t) (array_sort ?f xs) =
        filter (\<lambda>g. ?k g = v) (array_sort ?f xs)"
    by (rule filter_cong) (simp_all add: set_array_sort eq)
  also have "\<dots> = filter (\<lambda>g. ?k g = v) xs"
    by (rule array_sort_ordered(2) [OF earliest_first_ordered [OF assms]])
  also have "\<dots> = filter (\<lambda>g. getTime (game.date g) = t) xs"
    by (rule filter_cong) (simp_all add: eq)
  finally show ?thesis .
qed

lemma non_increasing_slice03: "non_increasing (time_values getTime xs) \<Longrightarrow> non_increasing (time_values getTime (slice03 xs))"
  by (simp add: non_increasing_def time_values_def slice03_def sorted_wrt_map)

lemma non_decreasing_slice03: "non_decreasing (time_values getTime xs) \<Longrightarrow> non_decreasing (time_values getTime (slice03 xs))"
  by (simp add: non_decreasing_def time_values_def slice03_def sorted_wrt_map)

lemma five_most_recent_first:
  assumes "map (\<lambda>g. getTime (game.date g)) [g1, g2, g3, g4, g5] =
           [Some (T - 5 * 86400000), Some (T - 4 * 86400000), Some (T - 3 * 86400000),
            Some (T - 2 * 86400000), Some (T - 1 * 86400000)]"
  shows "slice03 (array_sort (most_recent_first getTime) [g1, g2, g3, g4, g5]) = [g5, g4, g3]"
  using assms
  by (simp add: slice03_def array_sort_def CountAndMakeRun_def Let_def SortCompare_def
      most_recent_first_def num_sub_def)

lemma sample_getTime_simps:
  "sample_getTime ''2024-01-05T18:00Z'' = Some 1704477600000"
  "sample_getTime ''2024-01-06T18:00Z'' = Some 1704564000000"
  "sample_getTime ''2024-01-07T18:00Z'' = Some 1704650400000"
  "sample_getTime ''2024-01-08T18:00Z'' = Some 1704736800000"
  "sample_getTime ''2024-01-09T18:00Z'' = Some 1704823200000"
  "sample_getTime ''2024-01-14T18:00Z'' = Some 1705255200000"
  "sample_getTime ''2024-01-21T18:00Z'' = Some 1705860000000"
  "sample_getTime ''TBD'' = None"
  by (simp_all add: sample_getTime_def)

lemma build_game_fields:
  "game.date (build_game ev cs) = event.date ev"
  "game.completed (build_game ev cs) = or_false (completion_flag ev)"
  by (simp_all add: build_game_def Let_def)

lemma completion_flag_sample: "completion_flag (sample_event i d (flag b)) = Some b"
  by (simp add: completion_flag_def sample_event_def flag_def)

lemma list_all2_filter:
  assumes "list_all2 R xs ys" and "\<And>x y. R x y \<Longrightarrow> P x = Q y"
  shows "list_all2 R (filter P xs) (filter Q ys)"
  using assms(1)
proof (induction rule: list_all2_induct)
  case Nil
  show ?case by simp
next
  case (Cons x xs y ys)
  with assms(2) [of x y] show ?case by simp
qed

lemma or_false_flag: "or_false (completion_flag ev) = (completion_flag ev = Some True)"
  by (cases "completion_flag ev") (auto simp: or_false_def)

lemma completed_games_of_events:
  assumes "list_all2 (\<lambda>ev g. make_game ev = Inr g) evs games"
  shows "list_all2 (\<lambda>ev g. make_game ev = Inr g)
           (filter (\<lambda>ev. completion_flag ev = Some True) evs) (filter game.completed games)"
  using assms
  by (rule list_all2_filter) (simp add: make_game_completed or_false_flag)

lemma upcoming_games_of_events:
  assumes "list_all2 (\<lambda>ev g. make_game ev = Inr g) evs games"
  shows "list_all2 (\<lambda>ev g. make_game ev = Inr g)
           (filter (\<lambda>ev. completion_flag ev \<noteq> Some True \<and> date_gt (getTime (event.date ev)) now) evs)
           (filter (\<lambda>g. \<not> game.completed g \<and> date_gt (getTime (game.date g)) now) games)"
  using assms
  by (rule list_all2_filter) (simp add: make_game_completed make_game_date or_false_flag)

lemma games_in_set:
  assumes "list_all2 (\<lambda>ev g. make_game ev = Inr g) evs games" and "g \<in> set games"
  shows "\<exists>ev\<in>set evs. make_game ev = Inr g"
  using assms by (induction rule: list_all2_induct) auto

lemma events_in_set:
  assumes "list_all2 (\<lambda>ev g. make_game ev = Inr g) evs games" and "ev \<in> set evs"
  shows "\<exists>g\<in>set games. make_game ev = Inr g"
  using assms by (induction rule: list_all2_induct) auto

lemma date_gt_Some: "date_gt t now \<Longrightarrow> t \<noteq> None"
  by (cases t) (auto simp: date_gt_def)

lemma completion_flag_absent: "completion_flag (sample_event i d None) = None"
  by (simp add: completion_flag_def sample_event_def)

lemma sample_event_fields:
  "event.date (sample_event i d st) = d"
  "event.competitions (sample_event i d st) = Some [sample_competition]"
  by (simp_all add: sample_event_def)

lemma slice03_member_or_full:
  assumes "g \<in> set xs"
  shows "g \<in> set (slice03 (array_sort f xs)) \<or> length (slice03 (array_sort f xs)) = 3"
proof (cases "length xs \<le> 3")
  case True
  then have "slice03 (array_sort f xs) = array_sort f xs"
    by (simp add: slice03_def length_array_sort)
  with assms show ?thesis by (simp add: set_array_sort)
next
  case False
  then show ?thesis by (simp add: slice03_def length_array_sort)
qed

lemma set_slice03_array_sort: "set (slice03 (array_sort f xs)) \<subseteq> set xs"
  using set_take_subset [of 3 "array_sort f xs"] by (simp add: slice03_def set_array_sort)

lemma length_two_filters:
  "length (filter P xs) + length (filter (\<lambda>x. \<not> P x \<and> Q x) xs) \<le> length xs"
  by (induction xs) auto

lemma season_events_competitions: "\<forall>e\<in>set season_events. event.competitions e \<noteq> None"
  by (simp add: season_events_def sample_event_fields)

lemma number_to_string_404: "number_to_string 404 = ''404''"
  by (simp add: number_to_string.simps digit_char_def)

lemma find_None_iff: "(List.find P xs = None) = (\<forall>x\<in>set xs. \<not> P x)"
  by (induction xs) auto

lemma find_competitor_missing:
  assumes "cs = [] \<or> (\<exists>head rest. cs = head # rest \<and>
             (competitors head = None \<or>
              (\<exists>l. competitors head = Some l \<and> (\<forall>c\<in>set l. homeAway c \<noteq> tag))))"
  shows "find_competitor tag cs = None"
  using assms by (auto simp: find_competitor_def first_elem_def find_None_iff)

lemma find_competitor_present:
  assumes "competitors head = Some l" and "List.find (\<lambda>c. homeAway c = tag) l = Some c"
  shows "find_competitor tag (head # rest) = Some c"
  using assms by (simp add: find_competitor_def first_elem_def)

lemma build_game_home:
  "homeTeam (build_game ev cs) =
     \<lparr> game_side.team =
         \<lparr> game_team.displayName = or_default (Option.bind (Option.bind (find_competitor ''home'' cs) competitor.team) raw_team.displayName) ''TBD'',
           game_team.abbrev = or_default (Option.bind (Option.bind (find_competitor ''home'' cs) competitor.team) raw_team.abbrev) ''TBD'',
           game_team.logo = or_default (Option.bind (Option.bind (find_competitor ''home'' cs) competitor.team) raw_team.logo) '''' \<rparr>,
       game_side.score = Option.bind (find_competitor ''home'' cs) competitor.score \<rparr>"
  by (simp add: build_game_def Let_def)

lemma build_game_away:
  "awayTeam (build_game ev cs) =
     \<lparr> game_side.team =
         \<lparr> game_team.displayName = or_default (Option.bind (Option.bind (find_competitor ''away'' cs) competitor.team) raw_team.displayName) ''TBD'',
           game_team.abbrev = or_default (Option.bind (Option.bind (find_competitor ''away'' cs) competitor.team) raw_team.abbrev) ''TBD'',
           game_team.logo = or_default (Option.bind (Option.bind (find_competitor ''away'' cs) competitor.team) raw_team.logo) '''' \<rparr>,
       game_side.score = Option.bind (find_competitor ''away'' cs) competitor.score \<rparr>"
  by (simp add: build_game_def Let_def)

lemma or_default_cases:
  "or_default a d = (if a = None \<or> a = Some [] then d else the a)"
  by (cases a) (auto simp: or_default_def)

lemma away_only_event_competitions:
  "event.competitions away_only_event = Some [\<lparr> competitors = Some
         [ \<lparr> homeAway = ''away'',
             competitor.team = Some \<lparr> raw_team.displayName = Some ''Dallas Cowboys'',
               raw_team.abbrev = Some ''DAL'', raw_team.logo = Some ''dal.png'' \<rparr>,
             competitor.score = None \<rparr> ] \<rparr>]"
  by (simp add: away_only_event_def)

lemma partial_event_competitions:
  "event.competitions partial_event = Some [\<lparr> competitors = Some
         [ \<lparr> homeAway = ''away'',
             competitor.team = Some \<lparr> raw_team.displayName = Some ''Dallas Cowboys'',
               raw_team.abbrev = Some ''DAL'', raw_team.logo = Some ''dal.png'' \<rparr>,
             competitor.score = Some ''24'' \<rparr>,
           partial_home ] \<rparr>]"
  by (simp add: partial_event_def)

lemma partial_home_found:
  "List.find (\<lambda>c. homeAway c = ''home'')
         [ \<lparr> homeAway = ''away'',
             competitor.team = Some \<lparr> raw_team.displayName = Some ''Dallas Cowboys'',
               raw_team.abbrev = Some ''DAL'', raw_team.logo = Some ''dal.png'' \<rparr>,
             competitor.score = Some ''24'' \<rparr>,
           partial_home ] = Some partial_home"
  by (simp add: partial_home_def)

lemma prefix_filter_slice03:
  assumes "filter P (array_sort f xs) = filter P xs"
  shows "prefix (filter P (slice03 (array_sort f xs))) (filter P xs)"
proof -
  have "prefix (filter P (take 3 (array_sort f xs))) (filter P (array_sort f xs))"
    by (rule filter_mono_prefix [OF take_is_prefix])
  with assms show ?thesis by (simp add: slice03_def)
qed



lemma forEach_event_throws:
  assumes "e \<in> set evs" and "event.competitions e = None"
  shows "\<exists>err. forEach_event getTime now evs acc = Inl err"
  using assms(1)
proof (induction evs arbitrary: acc)
  case Nil
  then show ?case by simp
next
  case (Cons ev rest)
  obtain cg ug where acc: "acc = (cg, ug)" by (cases acc)
  show ?case
  proof (cases "make_game ev")
    case (Inl err)
    then show ?thesis by (simp add: acc)
  next
    case (Inr g)
    with assms(2) have "e \<noteq> ev" by (auto simp: make_game_def)
    with Cons.prems have "e \<in> set rest" by simp
    with Cons.IH Inr show ?thesis by (simp add: acc)
  qed
qed

lemma classify_events_returns_iff:
  "(\<exists>s. classify_events getTime now evs = Inr s) = (\<forall>e\<in>set evs. event.competitions e \<noteq> None)"
proof
  assume r: "\<exists>s. classify_events getTime now evs = Inr s"
  show "\<forall>e\<in>set evs. event.competitions e \<noteq> None"
  proof (rule ballI, rule notI)
    fix e assume "e \<in> set evs" and "event.competitions e = None"
    then obtain err where "forEach_event getTime now evs ([], []) = Inl err"
      using forEach_event_throws by blast
    with r show False by (simp add: classify_events_def)
  qed
next
  assume "\<forall>e\<in>set evs. event.competitions e \<noteq> None"
  then obtain games where "list_all2 (\<lambda>ev g. make_game ev = Inr g) evs games"
    using games_exist by blast
  then show "\<exists>s. classify_events getTime now evs = Inr s"
    by (simp add: classify_events_closed)
qed

section \<open>The order when every completed date parses\<close>

text \<open>
  Whenever every event has its \<open>competitions\<close> array, the resolver produces a schedule;
  \<open>lastGames\<close> and \<open>nextGames\<close> have at most 3 items; \<open>nextGames\<close> is sorted
  non-decreasing by time value; \<open>lastGames\<close> is sorted non-increasing by time value when the
  date of every completed event parses; and when the completed events are five events
  with time values T-5d, T-4d, T-3d, T-2d, T-1d, \<open>lastGames\<close> is exactly the games of
  T-1d, T-2d, T-3d in that order.
\<close>

lemma order_when_completed_dates_parse:
  assumes "\<forall>ev\<in>set evs. event.competitions ev \<noteq> None"
  shows "\<exists>s. classify_events getTime now evs = Inr s
     \<and> length (lastGames s) \<le> 3 \<and> length (nextGames s) \<le> 3
     \<and> non_decreasing (time_values getTime (nextGames s))
     \<and> ((\<forall>ev\<in>set evs. completion_flag ev = Some True \<longrightarrow> getTime (event.date ev) \<noteq> None)
          \<longrightarrow> non_increasing (time_values getTime (lastGames s)))
     \<and> (filter (\<lambda>ev. completion_flag ev = Some True) evs = [e1, e2, e3, e4, e5]
          \<and> map (\<lambda>ev. getTime (event.date ev)) [e1, e2, e3, e4, e5] =
              [Some (T - 5 * 86400000), Some (T - 4 * 86400000), Some (T - 3 * 86400000),
               Some (T - 2 * 86400000), Some (T - 1 * 86400000)]
          \<longrightarrow> map Inr (lastGames s) = map make_game [e5, e4, e3])"
proof -
  from assms obtain games where games: "list_all2 (\<lambda>ev g. make_game ev = Inr g) evs games"
    using games_exist by blast
  let ?cg = "filter game.completed games"
  let ?ug = "filter (\<lambda>g. \<not> game.completed g \<and> date_gt (getTime (game.date g)) now) games"
  let ?s = "\<lparr> lastGames = slice03 (array_sort (most_recent_first getTime) ?cg),
             nextGames = slice03 (array_sort (earliest_first getTime) ?ug) \<rparr>"
  have res: "classify_events getTime now evs = Inr ?s"
    by (rule classify_events_closed [OF games])
  have len: "length (lastGames ?s) \<le> 3" "length (nextGames ?s) \<le> 3"
    by (simp_all add: slice03_def)
  have "\<forall>g\<in>set ?ug. getTime (game.date g) \<noteq> None"
    by (auto dest: date_gt_Some)
  then have up: "non_decreasing (time_values getTime (nextGames ?s))"
    by (simp add: earliest_first_sorted non_decreasing_slice03)
  have rec: "non_increasing (time_values getTime (lastGames ?s))"
    if p: "\<forall>ev\<in>set evs. completion_flag ev = Some True \<longrightarrow> getTime (event.date ev) \<noteq> None"
  proof -
    have "getTime (game.date g) \<noteq> None" if "g \<in> set ?cg" for g
    proof -
      from that have "g \<in> set games" and c: "game.completed g" by auto
      with games obtain ev where "ev \<in> set evs" and "make_game ev = Inr g"
        using games_in_set by blast
      with p c show ?thesis by (simp add: make_game_completed make_game_date or_false_flag)
    qed
    then show ?thesis
      by (simp add: most_recent_first_sorted non_increasing_slice03)
  qed
  have five: "map Inr (lastGames ?s) = map make_game [e5, e4, e3]"
    if f: "filter (\<lambda>ev. completion_flag ev = Some True) evs = [e1, e2, e3, e4, e5]"
      and t: "map (\<lambda>ev. getTime (event.date ev)) [e1, e2, e3, e4, e5] =
              [Some (T - 5 * 86400000), Some (T - 4 * 86400000), Some (T - 3 * 86400000),
               Some (T - 2 * 86400000), Some (T - 1 * 86400000)]"
  proof -
    from completed_games_of_events [OF games] f
    have "list_all2 (\<lambda>ev g. make_game ev = Inr g) [e1, e2, e3, e4, e5] ?cg" by simp
    then obtain g1 g2 g3 g4 g5 where cg: "?cg = [g1, g2, g3, g4, g5]"
      and m: "make_game e1 = Inr g1" "make_game e2 = Inr g2" "make_game e3 = Inr g3"
        "make_game e4 = Inr g4" "make_game e5 = Inr g5"
      by (auto simp: list_all2_Cons1)
    from m t have "map (\<lambda>g. getTime (game.date g)) [g1, g2, g3, g4, g5] =
              [Some (T - 5 * 86400000), Some (T - 4 * 86400000), Some (T - 3 * 86400000),
               Some (T - 2 * 86400000), Some (T - 1 * 86400000)]"
      by (simp add: make_game_date)
    then have "slice03 (array_sort (most_recent_first getTime) [g1, g2, g3, g4, g5]) = [g5, g4, g3]"
      by (rule five_most_recent_first)
    with cg m show ?thesis by simp
  qed
  from res len up rec five show ?thesis by blast
qed

text \<open>
  Under the same condition the games of \<open>lastGames\<close> with one and the same time value are
  the first of the completed games with that time value, in input order; the same holds
  of \<open>nextGames\<close> and the upcoming games, without a condition.
\<close>

lemma equal_dates_keep_input_order_when_dates_parse:
  assumes "\<forall>e\<in>set evs. event.competitions e \<noteq> None"
  shows "\<exists>games s.
       list_all2 (\<lambda>ev g. make_game ev = Inr g) evs games
     \<and> classify_events getTime now evs = Inr s
     \<and> ((\<forall>ev\<in>set evs. completion_flag ev = Some True \<longrightarrow> getTime (event.date ev) \<noteq> None)
          \<longrightarrow> (\<forall>t. prefix (filter (\<lambda>g. getTime (game.date g) = t) (lastGames s))
                   (filter (\<lambda>g. getTime (game.date g) = t) (filter game.completed games))))
     \<and> (\<forall>t. prefix (filter (\<lambda>g. getTime (game.date g) = t) (nextGames s))
                   (filter (\<lambda>g. getTime (game.date g) = t)
                      (filter (\<lambda>g. \<not> game.completed g \<and> date_gt (getTime (game.date g)) now) games)))"
proof -
  from assms obtain games where games: "list_all2 (\<lambda>ev g. make_game ev = Inr g) evs games"
    using games_exist by blast
  let ?cg = "filter game.completed games"
  let ?ug = "filter (\<lambda>g. \<not> game.completed g \<and> date_gt (getTime (game.date g)) now) games"
  let ?s = "\<lparr> lastGames = slice03 (array_sort (most_recent_first getTime) ?cg),
             nextGames = slice03 (array_sort (earliest_first getTime) ?ug) \<rparr>"
  have res: "classify_events getTime now evs = Inr ?s"
    by (rule classify_events_closed [OF games])
  have l: "\<forall>t. prefix (filter (\<lambda>g. getTime (game.date g) = t) (lastGames ?s))
                  (filter (\<lambda>g. getTime (game.date g) = t) ?cg)"
    if p: "\<forall>ev\<in>set evs. completion_flag ev = Some True \<longrightarrow> getTime (event.date ev) \<noteq> None"
  proof
    fix t
    have "getTime (game.date g) \<noteq> None" if "g \<in> set ?cg" for g
    proof -
      from that have "g \<in> set games" and c: "game.completed g" by auto
      with games obtain ev where "ev \<in> set evs" and "make_game ev = Inr g"
        using games_in_set by blast
      with p c show ?thesis by (simp add: make_game_completed make_game_date or_false_flag)
    qed
    then have "filter (\<lambda>g. getTime (game.date g) = t) (array_sort (most_recent_first getTime) ?cg) =
          filter (\<lambda>g. getTime (game.date g) = t) ?cg"
      using most_recent_first_stable [of ?cg getTime t] by blast
    then show "prefix (filter (\<lambda>g. getTime (game.date g) = t) (lastGames ?s))
                  (filter (\<lambda>g. getTime (game.date g) = t) ?cg)"
      using prefix_filter_slice03 by fastforce
  qed
  have n: "prefix (filter (\<lambda>g. getTime (game.date g) = t) (nextGames ?s))
                  (filter (\<lambda>g. getTime (game.date g) = t) ?ug)" for t
  proof -
    have "\<forall>g\<in>set ?ug. getTime (game.date g) \<noteq> None"
      by (auto dest: date_gt_Some)
    then have "filter (\<lambda>g. getTime (game.date g) = t) (array_sort (earliest_first getTime) ?ug) =
          filter (\<lambda>g. getTime (game.date g) = t) ?ug"
      by (rule earliest_first_stable)
    then show ?thesis using prefix_filter_slice03 by fastforce
  qed
  from games res l n show ?thesis by blast
qed

section \<open>Ordering of the recent games\<close>

text \<open>
  C1 asks that \<open>lastGames\<close> be sorted non-increasing by time value for every event list.
  The resolver does not deliver this when a completed event has a date that does not
  parse: for completed events dated 2024-01-05, TBD and 2024-01-09 it returns a schedule
  whose \<open>lastGames\<close> are these three in input order, the oldest first. Every comparison
  with the unparseable date yields NaN, which \<open>sort\<close> takes for "equal", so the games on
  either side of it are never compared.
\<close>

theorem recent_unsorted_on_unparseable_date:
  "classify_events sample_getTime sample_now undated_events = Inr undated_schedule
   \<and> time_values sample_getTime (lastGames undated_schedule) =
       [Some 1704477600000, None, Some 1704823200000]
   \<and> \<not> non_increasing (time_values sample_getTime (lastGames undated_schedule))"
proof -
  have g: "list_all2 (\<lambda>ev g. make_game ev = Inr g) undated_events (lastGames undated_schedule)"
    by (simp add: undated_schedule_def undated_events_def make_game_def sample_event_def)
  have c: "filter game.completed (lastGames undated_schedule) = lastGames undated_schedule"
    by (simp add: undated_schedule_def undated_events_def build_game_fields
        completion_flag_sample or_false_def)
  have u: "filter (\<lambda>g. \<not> game.completed g \<and> date_gt (sample_getTime (game.date g)) sample_now)
             (lastGames undated_schedule) = []"
    by (simp add: undated_schedule_def undated_events_def build_game_fields
        completion_flag_sample or_false_def)
  have t: "time_values sample_getTime (lastGames undated_schedule) =
       [Some 1704477600000, None, Some 1704823200000]"
    by (simp add: time_values_def undated_schedule_def undated_events_def build_game_fields
        sample_event_def sample_getTime_simps)
  have s: "array_sort (most_recent_first sample_getTime) (lastGames undated_schedule) =
           lastGames undated_schedule"
    by (simp add: undated_schedule_def undated_events_def array_sort_def CountAndMakeRun_def
        Let_def SortCompare_def most_recent_first_def num_sub_def build_game_fields
        sample_event_def sample_getTime_simps)
  have "classify_events sample_getTime sample_now undated_events = Inr undated_schedule"
    by (simp add: classify_events_closed [OF g] c u s slice03_def)
       (simp add: undated_schedule_def undated_events_def array_sort_def)
  moreover have "\<not> non_increasing [Some 1704477600000, None, Some 1704823200000]"
    by (simp add: non_increasing_def num_ge_def)
  ultimately show ?thesis using t by simp
qed

section \<open>Classification\<close>

text \<open>
  C2. The game of an event whose completion flag is \<open>true\<close> is pushed on
  \<open>completedGames\<close>, from which \<open>lastGames\<close> is cut: it is in \<open>lastGames\<close> unless
  \<open>lastGames\<close> is full (3 items). It is neither in \<open>upcomingGames\<close> nor in \<open>nextGames\<close>.
  Nothing is assumed about its date.
\<close>

theorem completed_event_recent_only:
  assumes "\<forall>e\<in>set evs. event.competitions e \<noteq> None"
      and "ev \<in> set evs"
      and "completion_flag ev = Some True"
  shows "\<exists>completedGames upcomingGames s g.
           forEach_event getTime now evs ([], []) = Inr (completedGames, upcomingGames)
         \<and> classify_events getTime now evs = Inr s
         \<and> lastGames s = slice03 (array_sort (most_recent_first getTime) completedGames)
         \<and> make_game ev = Inr g
         \<and> g \<in> set completedGames
         \<and> (g \<in> set (lastGames s) \<or> length (lastGames s) = 3)
         \<and> g \<notin> set upcomingGames
         \<and> g \<notin> set (nextGames s)"
proof -
  from assms(1) obtain games where games: "list_all2 (\<lambda>ev g. make_game ev = Inr g) evs games"
    using games_exist by blast
  let ?cg = "filter game.completed games"
  let ?ug = "filter (\<lambda>g. \<not> game.completed g \<and> date_gt (getTime (game.date g)) now) games"
  let ?s = "\<lparr> lastGames = slice03 (array_sort (most_recent_first getTime) ?cg),
             nextGames = slice03 (array_sort (earliest_first getTime) ?ug) \<rparr>"
  from games assms(2) obtain g where g: "g \<in> set games" "make_game ev = Inr g"
    using events_in_set by blast
  with assms(3) have c: "game.completed g"
    by (simp add: make_game_completed or_false_def)
  have 1: "forEach_event getTime now evs ([], []) = Inr (?cg, ?ug)"
    by (simp add: forEach_event_closed [OF games])
  have 2: "classify_events getTime now evs = Inr ?s"
    by (rule classify_events_closed [OF games])
  have 3: "lastGames ?s = slice03 (array_sort (most_recent_first getTime) ?cg)" by simp
  from g c have 4: "g \<in> set ?cg" by simp
  then have 5: "g \<in> set (lastGames ?s) \<or> length (lastGames ?s) = 3"
    using slice03_member_or_full [of g ?cg "most_recent_first getTime"] by simp
  from c have 6: "g \<notin> set ?ug" by simp
  with set_slice03_array_sort [of "earliest_first getTime" ?ug]
  have 7: "g \<notin> set (nextGames ?s)" by auto
  from 1 2 3 g(2) 4 5 6 7 show ?thesis by blast
qed

theorem completed_event_recent_only_witness:
  "\<exists>completedGames upcomingGames s g.
      forEach_event sample_getTime sample_now season_events ([], []) = Inr (completedGames, upcomingGames)
    \<and> classify_events sample_getTime sample_now season_events = Inr s
    \<and> lastGames s = slice03 (array_sort (most_recent_first sample_getTime) completedGames)
    \<and> make_game (sample_event ''5'' ''2024-01-09T18:00Z'' (flag True)) = Inr g
    \<and> g \<in> set completedGames
    \<and> (g \<in> set (lastGames s) \<or> length (lastGames s) = 3)
    \<and> g \<notin> set upcomingGames
    \<and> g \<notin> set (nextGames s)"
proof -
  have m: "sample_event ''5'' ''2024-01-09T18:00Z'' (flag True) \<in> set season_events"
    by (simp add: season_events_def)
  have f: "completion_flag (sample_event ''5'' ''2024-01-09T18:00Z'' (flag True)) = Some True"
    by (simp add: completion_flag_sample)
  show ?thesis
    by (rule completed_event_recent_only [OF season_events_competitions m f])
qed

text \<open>
  C3. The game of an event whose completion flag is \<open>false\<close> or absent and whose time
  value is strictly later than \<open>now\<close> is pushed on \<open>upcomingGames\<close>: it is in \<open>nextGames\<close>
  unless \<open>nextGames\<close> is full. It is neither in \<open>completedGames\<close> nor in \<open>lastGames\<close>.
\<close>

theorem future_event_upcoming_only:
  assumes "\<forall>e\<in>set evs. event.competitions e \<noteq> None"
      and "ev \<in> set evs"
      and "completion_flag ev = Some False \<or> completion_flag ev = None"
      and "getTime (event.date ev) = Some t" and "now < t"
  shows "\<exists>completedGames upcomingGames s g.
           forEach_event getTime now evs ([], []) = Inr (completedGames, upcomingGames)
         \<and> classify_events getTime now evs = Inr s
         \<and> nextGames s = slice03 (array_sort (earliest_first getTime) upcomingGames)
         \<and> make_game ev = Inr g
         \<and> g \<in> set upcomingGames
         \<and> (g \<in> set (nextGames s) \<or> length (nextGames s) = 3)
         \<and> g \<notin> set completedGames
         \<and> g \<notin> set (lastGames s)"
proof -
  from assms(1) obtain games where games: "list_all2 (\<lambda>ev g. make_game ev = Inr g) evs games"
    using games_exist by blast
  let ?cg = "filter game.completed games"
  let ?ug = "filter (\<lambda>g. \<not> game.completed g \<and> date_gt (getTime (game.date g)) now) games"
  let ?s = "\<lparr> lastGames = slice03 (array_sort (most_recent_first getTime) ?cg),
             nextGames = slice03 (array_sort (earliest_first getTime) ?ug) \<rparr>"
  from games assms(2) obtain g where g: "g \<in> set games" "make_game ev = Inr g"
    using events_in_set by blast
  from assms(3) have "completion_flag ev \<noteq> Some True" by auto
  with g have c: "\<not> game.completed g"
    by (simp add: make_game_completed or_false_flag)
  from g assms(4,5) have d: "date_gt (getTime (game.date g)) now"
    by (simp add: make_game_date date_gt_def)
  have 1: "forEach_event getTime now evs ([], []) = Inr (?cg, ?ug)"
    by (simp add: forEach_event_closed [OF games])
  have 2: "classify_events getTime now evs = Inr ?s"
    by (rule classify_events_closed [OF games])
  have 3: "nextGames ?s = slice03 (array_sort (earliest_first getTime) ?ug)" by simp
  from g c d have 4: "g \<in> set ?ug" by simp
  then have 5: "g \<in> set (nextGames ?s) \<or> length (nextGames ?s) = 3"
    using slice03_member_or_full [of g ?ug "earliest_first getTime"] by simp
  from c have 6: "g \<notin> set ?cg" by simp
  with set_slice03_array_sort [of "most_recent_first getTime" ?cg]
  have 7: "g \<notin> set (lastGames ?s)" by auto
  from 1 2 3 g(2) 4 5 6 7 show ?thesis by blast
qed

theorem future_event_upcoming_only_witness:
  "\<exists>completedGames upcomingGames s g.
      forEach_event sample_getTime sample_now season_events ([], []) = Inr (completedGames, upcomingGames)
    \<and> classify_events sample_getTime sample_now season_events = Inr s
    \<and> nextGames s = slice03 (array_sort (earliest_first sample_getTime) upcomingGames)
    \<and> make_game (sample_event ''7'' ''2024-01-14T18:00Z'' None) = Inr g
    \<and> g \<in> set upcomingGames
    \<and> (g \<in> set (nextGames s) \<or> length (nextGames s) = 3)
    \<and> g \<notin> set completedGames
    \<and> g \<notin> set (lastGames s)"
proof -
  have m: "sample_event ''7'' ''2024-01-14T18:00Z'' None \<in> set season_events"
    by (simp add: season_events_def)
  have f: "completion_flag (sample_event ''7'' ''2024-01-14T18:00Z'' None) = Some False
         \<or> completion_flag (sample_event ''7'' ''2024-01-14T18:00Z'' None) = None"
    by (simp add: completion_flag_absent)
  have t: "sample_getTime (event.date (sample_event ''7'' ''2024-01-14T18:00Z'' None)) = Some 1705255200000"
    by (simp add: sample_event_fields sample_getTime_simps)
  have n: "sample_now < 1705255200000"
    by (simp add: sample_now_def)
  show ?thesis
    by (rule future_event_upcoming_only [where getTime = sample_getTime and now = sample_now
          and t = 1705255200000, OF season_events_competitions m f t n])
qed

text \<open>
  C4. No game is in both lists, before or after the cut, and every event adds to at most
  one of them. The game of an event that is not completed and whose date is not in the
  future, or does not parse, is in neither list.
\<close>

theorem game_in_at_most_one_list:
  assumes "\<forall>e\<in>set evs. event.competitions e \<noteq> None"
  shows "\<exists>completedGames upcomingGames s.
           forEach_event getTime now evs ([], []) = Inr (completedGames, upcomingGames)
         \<and> classify_events getTime now evs = Inr s
         \<and> set completedGames \<inter> set upcomingGames = {}
         \<and> set (lastGames s) \<inter> set (nextGames s) = {}
         \<and> length completedGames + length upcomingGames \<le> length evs
         \<and> (\<forall>ev\<in>set evs.
               completion_flag ev \<noteq> Some True \<longrightarrow>
               (getTime (event.date ev) = None \<or> (\<exists>t. getTime (event.date ev) = Some t \<and> t \<le> now)) \<longrightarrow>
               (\<exists>g. make_game ev = Inr g
                  \<and> g \<notin> set completedGames \<and> g \<notin> set upcomingGames
                  \<and> g \<notin> set (lastGames s) \<and> g \<notin> set (nextGames s)))"
proof -
  from assms(1) obtain games where games: "list_all2 (\<lambda>ev g. make_game ev = Inr g) evs games"
    using games_exist by blast
  let ?cg = "filter game.completed games"
  let ?ug = "filter (\<lambda>g. \<not> game.completed g \<and> date_gt (getTime (game.date g)) now) games"
  let ?s = "\<lparr> lastGames = slice03 (array_sort (most_recent_first getTime) ?cg),
             nextGames = slice03 (array_sort (earliest_first getTime) ?ug) \<rparr>"
  have 1: "forEach_event getTime now evs ([], []) = Inr (?cg, ?ug)"
    by (simp add: forEach_event_closed [OF games])
  have 2: "classify_events getTime now evs = Inr ?s"
    by (rule classify_events_closed [OF games])
  have 3: "set ?cg \<inter> set ?ug = {}" by auto
  have l: "set (lastGames ?s) \<subseteq> set ?cg" and n: "set (nextGames ?s) \<subseteq> set ?ug"
    using set_slice03_array_sort [of "most_recent_first getTime" ?cg]
      set_slice03_array_sort [of "earliest_first getTime" ?ug] by simp_all
  with 3 have 4: "set (lastGames ?s) \<inter> set (nextGames ?s) = {}" by blast
  have "length ?cg + length ?ug \<le> length games" by (rule length_two_filters)
  with games have 5: "length ?cg + length ?ug \<le> length evs"
    by (simp add: list_all2_lengthD)
  have 6: "\<exists>g. make_game ev = Inr g \<and> g \<notin> set ?cg \<and> g \<notin> set ?ug
              \<and> g \<notin> set (lastGames ?s) \<and> g \<notin> set (nextGames ?s)"
    if "ev \<in> set evs" and f: "completion_flag ev \<noteq> Some True"
      and t: "getTime (event.date ev) = None \<or> (\<exists>t. getTime (event.date ev) = Some t \<and> t \<le> now)"
    for ev
  proof -
    from games that(1) obtain g where g: "make_game ev = Inr g"
      using events_in_set by blast
    with f have c: "\<not> game.completed g"
      by (simp add: make_game_completed or_false_flag)
    from g t have d: "\<not> date_gt (getTime (game.date g)) now"
      by (auto simp: make_game_date date_gt_def)
    from c have "g \<notin> set ?cg" by simp
    moreover from d have "g \<notin> set ?ug" by simp
    ultimately show ?thesis using g l n by blast
  qed
  from 1 2 3 4 5 6 show ?thesis by blast
qed

theorem game_in_at_most_one_list_witness:
  "\<exists>completedGames upcomingGames s.
      forEach_event sample_getTime sample_now season_events ([], []) = Inr (completedGames, upcomingGames)
    \<and> classify_events sample_getTime sample_now season_events = Inr s
    \<and> set completedGames \<inter> set upcomingGames = {}
    \<and> set (lastGames s) \<inter> set (nextGames s) = {}
    \<and> length completedGames + length upcomingGames \<le> length season_events
    \<and> (\<exists>g. make_game (sample_event ''8'' ''2024-01-06T18:00Z'' (flag False)) = Inr g
          \<and> g \<notin> set completedGames \<and> g \<notin> set upcomingGames
          \<and> g \<notin> set (lastGames s) \<and> g \<notin> set (nextGames s))
    \<and> (\<exists>g. make_game (sample_event ''9'' ''TBD'' (flag False)) = Inr g
          \<and> g \<notin> set completedGames \<and> g \<notin> set upcomingGames
          \<and> g \<notin> set (lastGames s) \<and> g \<notin> set (nextGames s))"
proof -
  let ?past = "sample_event ''8'' ''2024-01-06T18:00Z'' (flag False)"
  let ?undated = "sample_event ''9'' ''TBD'' (flag False)"
  have m: "?past \<in> set season_events" "?undated \<in> set season_events"
    by (simp_all add: season_events_def)
  have f: "completion_flag ?past \<noteq> Some True" "completion_flag ?undated \<noteq> Some True"
    by (simp_all add: completion_flag_sample)
  have t: "sample_getTime (event.date ?past) = None
           \<or> (\<exists>t. sample_getTime (event.date ?past) = Some t \<and> t \<le> sample_now)"
    by (simp add: sample_event_fields sample_getTime_simps sample_now_def)
  have u: "sample_getTime (event.date ?undated) = None
           \<or> (\<exists>t. sample_getTime (event.date ?undated) = Some t \<and> t \<le> sample_now)"
    by (simp add: sample_event_fields sample_getTime_simps)
  from game_in_at_most_one_list [OF season_events_competitions, of sample_getTime sample_now]
  obtain completedGames upcomingGames s where
    r: "forEach_event sample_getTime sample_now season_events ([], []) = Inr (completedGames, upcomingGames)"
      "classify_events sample_getTime sample_now season_events = Inr s"
      "set completedGames \<inter> set upcomingGames = {}"
      "set (lastGames s) \<inter> set (nextGames s) = {}"
      "length completedGames + length upcomingGames \<le> length season_events"
    and a: "\<forall>ev\<in>set season_events.
               completion_flag ev \<noteq> Some True \<longrightarrow>
               (sample_getTime (event.date ev) = None
                 \<or> (\<exists>t. sample_getTime (event.date ev) = Some t \<and> t \<le> sample_now)) \<longrightarrow>
               (\<exists>g. make_game ev = Inr g
                  \<and> g \<notin> set completedGames \<and> g \<notin> set upcomingGames
                  \<and> g \<notin> set (lastGames s) \<and> g \<notin> set (nextGames s))"
    by blast
  from a m(1) f(1) t have p: "\<exists>g. make_game ?past = Inr g
                  \<and> g \<notin> set completedGames \<and> g \<notin> set upcomingGames
                  \<and> g \<notin> set (lastGames s) \<and> g \<notin> set (nextGames s)" by blast
  from a m(2) f(2) u have q: "\<exists>g. make_game ?undated = Inr g
                  \<and> g \<notin> set completedGames \<and> g \<notin> set upcomingGames
                  \<and> g \<notin> set (lastGames s) \<and> g \<notin> set (nextGames s)" by blast
  from r p q show ?thesis by blast
qed

section \<open>Failure and the empty schedule\<close>

text \<open>
  C5. When the response is not \<open>ok\<close>, the \<open>try\<close> block throws an error whose message ends
  with the status code; \<open>scheduleError\<close> holds that message, \<open>teamSchedule\<close> is left as it
  was, so no schedule, whole or partial, is stored, and loading is over.
\<close>

theorem http_failure_aborts:
  assumes "fetch (schedule_url teamId) = Inr resp" and "\<not> response.ok resp"
  shows "try_block fetch getTime now teamId =
           Inl (ErrorObject (''HTTP error! status: '' @ number_to_string (response.status resp)))
       \<and> scheduleError (fetchTeamSchedule fetch getTime now teamId st) =
           Some (''HTTP error! status: '' @ number_to_string (response.status resp))
       \<and> sublist (number_to_string (response.status resp))
           (the (scheduleError (fetchTeamSchedule fetch getTime now teamId st)))
       \<and> teamSchedule (fetchTeamSchedule fetch getTime now teamId st) = teamSchedule st
       \<and> scheduleLoading (fetchTeamSchedule fetch getTime now teamId st) = False"
proof -
  let ?msg = "''HTTP error! status: '' @ number_to_string (response.status resp)"
  from assms have t: "try_block fetch getTime now teamId = Inl (ErrorObject ?msg)"
    by (simp add: try_block_def)
  then have e: "scheduleError (fetchTeamSchedule fetch getTime now teamId st) = Some ?msg"
    and s: "teamSchedule (fetchTeamSchedule fetch getTime now teamId st) = teamSchedule st"
    and l: "scheduleLoading (fetchTeamSchedule fetch getTime now teamId st) = False"
    by (simp_all add: fetchTeamSchedule_def error_message_def)
  have "sublist (number_to_string (response.status resp)) ?msg"
    by (rule sublist_append_leftI)
  with t e s l show ?thesis by simp
qed

theorem http_failure_aborts_witness:
  "try_block (\<lambda>url. Inr not_found_response) sample_getTime sample_now ''19'' =
       Inl (ErrorObject ''HTTP error! status: 404'')
   \<and> scheduleError (fetchTeamSchedule (\<lambda>url. Inr not_found_response) sample_getTime sample_now ''19'' clicked_state) =
       Some ''HTTP error! status: 404''
   \<and> teamSchedule (fetchTeamSchedule (\<lambda>url. Inr not_found_response) sample_getTime sample_now ''19'' clicked_state) = None"
proof -
  have h1: "(\<lambda>url. Inr not_found_response) (schedule_url ''19'') = Inr not_found_response" by simp
  have h2: "\<not> response.ok not_found_response" by (simp add: not_found_response_def)
  have s: "response.status not_found_response = 404" by (simp add: not_found_response_def)
  from http_failure_aborts [of "\<lambda>url. Inr not_found_response" "''19''" not_found_response
      sample_getTime sample_now clicked_state, OF h1 h2]
  show ?thesis by (simp add: s number_to_string_404 clicked_state_def)
qed

text \<open>
  C6. When the response is \<open>ok\<close> and its body has no \<open>events\<close>, or an empty \<open>events\<close>
  array, the resolver stores a schedule of two empty sequences and no error.
\<close>

theorem no_event_list_is_empty_schedule:
  assumes "fetch (schedule_url teamId) = Inr resp" and "response.ok resp"
      and "response.json resp = Inr data"
      and "events data = None \<or> events data = Some []"
  shows "try_block fetch getTime now teamId = Inr \<lparr> lastGames = [], nextGames = [] \<rparr>
       \<and> fetchTeamSchedule fetch getTime now teamId st =
           \<lparr> teamSchedule = Some \<lparr> lastGames = [], nextGames = [] \<rparr>,
             scheduleLoading = False, scheduleError = None \<rparr>"
proof -
  from assms(4) have "(case events data of None \<Rightarrow> [] | Some evs \<Rightarrow> evs) = []" by auto
  with assms(1-3) have t: "try_block fetch getTime now teamId = Inr \<lparr> lastGames = [], nextGames = [] \<rparr>"
    by (simp add: try_block_def classify_events_def slice03_def array_sort_def)
  then show ?thesis by (cases st) (simp add: fetchTeamSchedule_def)
qed

theorem no_event_list_is_empty_schedule_witness:
  "fetchTeamSchedule (\<lambda>url. Inr no_events_response) sample_getTime sample_now ''19'' clicked_state =
       \<lparr> teamSchedule = Some \<lparr> lastGames = [], nextGames = [] \<rparr>,
         scheduleLoading = False, scheduleError = None \<rparr>
   \<and> fetchTeamSchedule (\<lambda>url. Inr empty_events_response) sample_getTime sample_now ''19'' clicked_state =
       \<lparr> teamSchedule = Some \<lparr> lastGames = [], nextGames = [] \<rparr>,
         scheduleLoading = False, scheduleError = None \<rparr>"
proof -
  have a: "fetchTeamSchedule (\<lambda>url. Inr no_events_response) sample_getTime sample_now ''19'' clicked_state =
       \<lparr> teamSchedule = Some \<lparr> lastGames = [], nextGames = [] \<rparr>,
         scheduleLoading = False, scheduleError = None \<rparr>"
    using no_event_list_is_empty_schedule [of "\<lambda>url. Inr no_events_response" "''19''"
        no_events_response "\<lparr> events = None \<rparr>" sample_getTime sample_now clicked_state]
    by (simp add: no_events_response_def)
  have b: "fetchTeamSchedule (\<lambda>url. Inr empty_events_response) sample_getTime sample_now ''19'' clicked_state =
       \<lparr> teamSchedule = Some \<lparr> lastGames = [], nextGames = [] \<rparr>,
         scheduleLoading = False, scheduleError = None \<rparr>"
    using no_event_list_is_empty_schedule [of "\<lambda>url. Inr empty_events_response" "''19''"
        empty_events_response "\<lparr> events = Some [] \<rparr>" sample_getTime sample_now clicked_state]
    by (simp add: empty_events_response_def)
  from a b show ?thesis by simp
qed

section \<open>Normalisation of the two sides\<close>

text \<open>
  C7. When the home side (respectively the away side) has no participant, because there
  is no competition, or it has no competitor list, or no competitor carries that side
  tag, that side of the game has display name and abbreviation "TBD", an empty logo and
  no score.
\<close>

theorem missing_participant_is_TBD:
  assumes "event.competitions ev = Some cs"
      and "tag = ''home'' \<or> tag = ''away''"
      and "cs = [] \<or> (\<exists>head rest. cs = head # rest \<and>
             (competitors head = None \<or>
              (\<exists>l. competitors head = Some l \<and> (\<forall>c\<in>set l. homeAway c \<noteq> tag))))"
  shows "\<exists>g. make_game ev = Inr g
           \<and> (if tag = ''home'' then homeTeam g else awayTeam g) =
               \<lparr> game_side.team = \<lparr> game_team.displayName = ''TBD'', game_team.abbrev = ''TBD'',
                                     game_team.logo = '''' \<rparr>,
                 game_side.score = None \<rparr>"
proof -
  from assms(3) have n: "find_competitor tag cs = None" by (rule find_competitor_missing)
  have "(if tag = ''home'' then homeTeam (build_game ev cs) else awayTeam (build_game ev cs)) =
               \<lparr> game_side.team = \<lparr> game_team.displayName = ''TBD'', game_team.abbrev = ''TBD'',
                                     game_team.logo = '''' \<rparr>,
                 game_side.score = None \<rparr>"
  proof (cases "tag = ''home''")
    case True
    with n show ?thesis by (simp add: build_game_home or_default_def)
  next
    case False
    with assms(2) have "tag = ''away''" by simp
    with n show ?thesis by (simp add: build_game_away or_default_def)
  qed
  with assms(1) show ?thesis by (simp add: make_game_def)
qed

theorem missing_participant_is_TBD_witness:
  "\<exists>g. make_game away_only_event = Inr g
      \<and> homeTeam g =
           \<lparr> game_side.team = \<lparr> game_team.displayName = ''TBD'', game_team.abbrev = ''TBD'',
                                 game_team.logo = '''' \<rparr>,
             game_side.score = None \<rparr>"
  using missing_participant_is_TBD [OF away_only_event_competitions, of "''home''"]
  by simp

text \<open>
  C8. When the participant of a side is present and carries no score, the score of that
  side of the game is absent, not "0"; the text displayed for it is "0", computed from
  the game and leaving it as it is.
\<close>

theorem missing_score_stays_absent:
  assumes "event.competitions ev = Some (head # rest)"
      and "competitors head = Some l"
      and "tag = ''home'' \<or> tag = ''away''"
      and "List.find (\<lambda>c. homeAway c = tag) l = Some c"
      and "competitor.score c = None"
  shows "\<exists>g. make_game ev = Inr g
           \<and> game_side.score (if tag = ''home'' then homeTeam g else awayTeam g) = None
           \<and> game_side.score (if tag = ''home'' then homeTeam g else awayTeam g) \<noteq> Some ''0''
           \<and> score_text (if tag = ''home'' then homeTeam g else awayTeam g) = ''0''"
proof -
  from assms(2,4) have p: "find_competitor tag (head # rest) = Some c"
    by (rule find_competitor_present)
  let ?g = "build_game ev (head # rest)"
  have "game_side.score (if tag = ''home'' then homeTeam ?g else awayTeam ?g) = None"
  proof (cases "tag = ''home''")
    case True
    with p assms(5) show ?thesis by (simp add: build_game_home)
  next
    case False
    with assms(3) have "tag = ''away''" by simp
    with p assms(5) show ?thesis by (simp add: build_game_away)
  qed
  then have "game_side.score (if tag = ''home'' then homeTeam ?g else awayTeam ?g) = None
           \<and> game_side.score (if tag = ''home'' then homeTeam ?g else awayTeam ?g) \<noteq> Some ''0''
           \<and> score_text (if tag = ''home'' then homeTeam ?g else awayTeam ?g) = ''0''"
    by (simp add: score_text_def or_default_def)
  with assms(1) show ?thesis by (simp add: make_game_def)
qed

theorem missing_score_stays_absent_witness:
  "\<exists>g. make_game partial_event = Inr g
      \<and> game_side.score (homeTeam g) = None
      \<and> score_text (homeTeam g) = ''0''"
proof -
  have s: "competitor.score partial_home = None" by (simp add: partial_home_def)
  from missing_score_stays_absent [OF partial_event_competitions _ _ partial_home_found s]
  show ?thesis by auto
qed

text \<open>
  C10. When the participant of a side is present with a team snapshot, each of display
  name, abbreviation and logo is defaulted on its own: an absent or empty field becomes
  "TBD" (the logo: the empty string), any other field is the participant's; the score is
  the participant's in every case.
\<close>

theorem present_participant_defaults_per_field:
  assumes "event.competitions ev = Some (head # rest)"
      and "competitors head = Some l"
      and "tag = ''home'' \<or> tag = ''away''"
      and "List.find (\<lambda>c. homeAway c = tag) l = Some c"
      and "competitor.team c = Some t"
  shows "\<exists>g. make_game ev = Inr g
           \<and> game_team.displayName (game_side.team (if tag = ''home'' then homeTeam g else awayTeam g)) =
               (if raw_team.displayName t = None \<or> raw_team.displayName t = Some ''''
                then ''TBD'' else the (raw_team.displayName t))
           \<and> game_team.abbrev (game_side.team (if tag = ''home'' then homeTeam g else awayTeam g)) =
               (if raw_team.abbrev t = None \<or> raw_team.abbrev t = Some ''''
                then ''TBD'' else the (raw_team.abbrev t))
           \<and> game_team.logo (game_side.team (if tag = ''home'' then homeTeam g else awayTeam g)) =
               (if raw_team.logo t = None \<or> raw_team.logo t = Some ''''
                then '''' else the (raw_team.logo t))
           \<and> game_side.score (if tag = ''home'' then homeTeam g else awayTeam g) = competitor.score c"
proof -
  from assms(2,4) have p: "find_competitor tag (head # rest) = Some c"
    by (rule find_competitor_present)
  let ?g = "build_game ev (head # rest)"
  have "game_side.team (if tag = ''home'' then homeTeam ?g else awayTeam ?g) =
          \<lparr> game_team.displayName = or_default (raw_team.displayName t) ''TBD'',
            game_team.abbrev = or_default (raw_team.abbrev t) ''TBD'',
            game_team.logo = or_default (raw_team.logo t) '''' \<rparr>
      \<and> game_side.score (if tag = ''home'' then homeTeam ?g else awayTeam ?g) = competitor.score c"
  proof (cases "tag = ''home''")
    case True
    with p assms(5) show ?thesis by (simp add: build_game_home)
  next
    case False
    with assms(3) have "tag = ''away''" by simp
    with p assms(5) show ?thesis by (simp add: build_game_away)
  qed
  then have "game_team.displayName (game_side.team (if tag = ''home'' then homeTeam ?g else awayTeam ?g)) =
               (if raw_team.displayName t = None \<or> raw_team.displayName t = Some ''''
                then ''TBD'' else the (raw_team.displayName t))
           \<and> game_team.abbrev (game_side.team (if tag = ''home'' then homeTeam ?g else awayTeam ?g)) =
               (if raw_team.abbrev t = None \<or> raw_team.abbrev t = Some ''''
                then ''TBD'' else the (raw_team.abbrev t))
           \<and> game_team.logo (game_side.team (if tag = ''home'' then homeTeam ?g else awayTeam ?g)) =
               (if raw_team.logo t = None \<or> raw_team.logo t = Some ''''
                then '''' else the (raw_team.logo t))
           \<and> game_side.score (if tag = ''home'' then homeTeam ?g else awayTeam ?g) = competitor.score c"
    by (simp add: or_default_cases)
  with assms(1) show ?thesis by (simp add: make_game_def)
qed

theorem present_participant_defaults_per_field_witness:
  "\<exists>g. make_game partial_event = Inr g
      \<and> game_team.displayName (game_side.team (homeTeam g)) = ''TBD''
      \<and> game_team.abbrev (game_side.team (homeTeam g)) = ''NYG''
      \<and> game_team.logo (game_side.team (homeTeam g)) = ''''
      \<and> game_side.score (homeTeam g) = None"
proof -
  have t: "competitor.team partial_home = Some \<lparr> raw_team.displayName = Some '''',
         raw_team.abbrev = Some ''NYG'', raw_team.logo = None \<rparr>"
    by (simp add: partial_home_def)
  have s: "competitor.score partial_home = None" by (simp add: partial_home_def)
  from present_participant_defaults_per_field [OF partial_event_competitions _ _ partial_home_found t]
  show ?thesis by (simp add: s)
qed

section \<open>Order of games with equal dates\<close>


end
